theory Spec2Isabelle
  imports Complex_Main "HOL-Library.Log_Nat"
begin

section \<open>The retrying agent invoker of the Text-to-SQL notebook\<close>

text \<open>
  The development embeds the two pieces of Python in
  \<^verbatim>\<open>Lab 3/3.2 Text to SQL\<close> that carry control flow of their own: the callback
  handler \<^verbatim>\<open>SQLHandler\<close> and the function \<^verbatim>\<open>invoke_agent\<close>.

  Everything outside these two is an external collaborator and appears as an input:
  \<^item> the agent: the \<open>n\<close>-th call of \<^verbatim>\<open>agent.invoke\<close> (counted from 0) reports a list of
    agent actions to the callback handler and then returns a response dictionary, raises
    an instance of \<^verbatim>\<open>Exception\<close>, of which only \<^verbatim>\<open>str(e)\<close> is ever used, or raises some
    other \<^verbatim>\<open>BaseException\<close> such as \<^verbatim>\<open>KeyboardInterrupt\<close>;
  \<^item> \<^verbatim>\<open>random.random()\<close>: the \<open>n\<close>-th sample drawn (counted from 0);
  \<^item> \<^verbatim>\<open>prompt_template.invoke\<close>: a function from the question to the prompt;
  \<^item> the largest duration that \<^verbatim>\<open>time.sleep\<close> accepts, which depends on the platform.

  \<^verbatim>\<open>max_retries\<close> and \<^verbatim>\<open>base_delay\<close> are Python integers, as their defaults are, and
  \<^verbatim>\<open>max_delay\<close> is any finite number. A double is the rational number it stands for; the
  conversion of an integer to a double and the addition of doubles round to the nearest
  double, ties to even. Of the \<^verbatim>\<open>print\<close> calls only the formatting of the delay is
  modelled, which can raise.
\<close>

subsection \<open>Python strings\<close>

text \<open>\<^verbatim>\<open>hay.startswith(needle)\<close> and \<^verbatim>\<open>needle in hay\<close> on strings.\<close>

fun startswith :: "string \<Rightarrow> string \<Rightarrow> bool" where
  "startswith hay [] = True"
| "startswith [] (n # ns) = False"
| "startswith (h # hs) (n # ns) = (h = n \<and> startswith hs ns)"

fun str_in :: "string \<Rightarrow> string \<Rightarrow> bool" where
  "str_in needle [] = (needle = [])"
| "str_in needle (h # hs) = (startswith (h # hs) needle \<or> str_in needle hs)"

text \<open>\<^verbatim>\<open>str(n)\<close> for an integer: decimal digits, with a minus sign when negative.\<close>

definition digit_char :: "nat \<Rightarrow> char" where
  "digit_char d = ''0123456789'' ! d"

function str_nat :: "nat \<Rightarrow> string" where
  "str_nat n = (if n < 10 then [digit_char n] else str_nat (n div 10) @ [digit_char (n mod 10)])"
  by pat_completeness auto
termination
  by (relation "measure id") auto

declare str_nat.simps [simp del]

definition str_int :: "int \<Rightarrow> string" where
  "str_int i = (if i < 0 then CHR ''-'' # str_nat (nat (- i)) else str_nat (nat i))"

subsection \<open>The callback handler\<close>

text \<open>
  \<^verbatim>\<open>
  class SQLHandler(BaseCallbackHandler):
      def __init__(self):
          self.sql_query = None
      def on_agent_action(self, action, **kwargs):
          if action.tool == "sql_db_query":
              self.sql_query = action.tool_input
  \<close>
\<close>

record agent_action =
  tool :: string
  tool_input :: string

record SQLHandler =
  sql_query :: "string option"

definition SQLHandler_init :: SQLHandler where
  "SQLHandler_init = \<lparr>sql_query = None\<rparr>"

definition on_agent_action :: "SQLHandler \<Rightarrow> agent_action \<Rightarrow> SQLHandler" where
  "on_agent_action self action =
     (if tool action = ''sql_db_query'' then self\<lparr>sql_query := Some (tool_input action)\<rparr>
      else self)"

subsection \<open>Doubles\<close>

text \<open>
  For \<open>x > 0\<close>, the exponent \<open>e\<close> with \<open>2\<^sup>e \<le> x < 2\<^sup>e\<^sup>+\<^sup>1\<close>, computed from the bit
  lengths of numerator and denominator.
\<close>

definition floor_log2 :: "rat \<Rightarrow> int" where
  "floor_log2 x =
     (let (p, q) = quotient_of x; d = bitlen p - bitlen q
      in if 2 powi d \<le> x then d else d - 1)"

definition round_half_even :: "rat \<Rightarrow> int" where
  "round_half_even x =
     (let f = \<lfloor>x\<rfloor>; r = x - of_int f
      in if r < 1 / 2 then f else if 1 / 2 < r then f + 1 else if even f then f else f + 1)"

text \<open>
  Rounding to the nearest binary64 number: 53 significant bits, and no bit below
  \<open>2\<^sup>-\<^sup>1\<^sup>0\<^sup>7\<^sup>4\<close>. The exponent is not bounded above here; the one place where the
  range matters is the conversion of an integer, which raises.
\<close>

definition round_double :: "rat \<Rightarrow> rat" where
  "round_double x =
     (if x = 0 then 0
      else let ulp = 2 powi (max (floor_log2 \<bar>x\<bar> - 52) (- 1074))
           in of_int (round_half_even (x / ulp)) * ulp)"

subsection \<open>The agent, the clock and the random source\<close>

text \<open>
  A response is a dictionary from keys to strings. One call of \<^verbatim>\<open>agent.invoke\<close> first
  reports its actions to the handler and then returns, raises an \<^verbatim>\<open>Exception\<close> with the
  given \<^verbatim>\<open>str\<close>, or raises a \<^verbatim>\<open>BaseException\<close> that is not an \<^verbatim>\<open>Exception\<close>, of the given
  class name.
\<close>

type_synonym response = "string \<rightharpoonup> string"

datatype ending = Returns response | Raises string | RaisesBase string

record invocation =
  actions :: "agent_action list"
  ending :: ending

type_synonym 'p agent = "'p \<Rightarrow> nat \<Rightarrow> invocation"

text \<open>
  The exceptions that leave \<^verbatim>\<open>invoke_agent\<close>. The message of an \<^verbatim>\<open>OverflowError\<close> depends
  on where it is raised and on the type of the argument, and is left out.
\<close>

datatype error = ValueError string | OverflowError | BaseException string

datatype event = Invoke | Sleep rat

text \<open>
  An integer in \<^verbatim>\<open>int + float\<close> is converted to a double first, which raises
  \<^verbatim>\<open>OverflowError: int too large to convert to float\<close> when it rounds to \<open>2\<^sup>1\<^sup>0\<^sup>2\<^sup>4\<close> or
  beyond, that is from \<open>2\<^sup>1\<^sup>0\<^sup>2\<^sup>4 - 2\<^sup>9\<^sup>7\<^sup>0\<close> on.
\<close>

definition double_of_int :: "int \<Rightarrow> error + rat" where
  "double_of_int n =
     (if 2 ^ 1024 - 2 ^ 970 \<le> \<bar>n\<bar> then Inl OverflowError
      else Inr (round_double (of_int n)))"

text \<open>
  \<^verbatim>\<open>time.sleep(secs)\<close> converts its argument to the clock's integer type, which raises
  \<^verbatim>\<open>OverflowError\<close> beyond the largest duration the platform accepts, and then raises
  \<^verbatim>\<open>ValueError\<close> on a negative duration.
\<close>

definition time_sleep :: "rat \<Rightarrow> rat \<Rightarrow> error + unit" where
  "time_sleep sleep_limit secs =
     (if sleep_limit < \<bar>secs\<bar> then Inl OverflowError
      else if secs < 0 then Inl (ValueError ''sleep length must be non-negative'')
      else Inr ())"

text \<open>
  \<^verbatim>\<open>f"{delay:.2f}"\<close> in the \<^verbatim>\<open>print\<close> before the sleep: the format converts an integer
  to a double, which raises \<^verbatim>\<open>OverflowError\<close> from \<open>2\<^sup>1\<^sup>0\<^sup>2\<^sup>4 - 2\<^sup>9\<^sup>7\<^sup>0\<close> on. The delay is
  such an integer only when it is \<^verbatim>\<open>max_delay\<close>; the doubles lie below.
\<close>

definition format_2f :: "rat \<Rightarrow> error + unit" where
  "format_2f d = (if 2 ^ 1024 - 2 ^ 970 \<le> \<bar>d\<bar> then Inl OverflowError else Inr ())"

text \<open>
  \<^verbatim>\<open>random.uniform(a, b)\<close> is \<^verbatim>\<open>a + (b - a) * self.random()\<close> on doubles, for the integer
  bounds 0, 1 and 2 used here; \<open>u\<close> is the sample drawn.
\<close>

definition uniform :: "rat \<Rightarrow> int \<Rightarrow> int \<Rightarrow> rat" where
  "uniform u a b = round_double (of_int a + round_double (of_int (b - a) * u))"

subsection \<open>\<^verbatim>\<open>invoke_agent\<close>\<close>

text \<open>
  The body of the \<^verbatim>\<open>try\<close> block after the call: \<^verbatim>\<open>response['output']\<close> raises
  \<^verbatim>\<open>KeyError('output')\<close> on a missing key, and \<^verbatim>\<open>str\<close> of that is \<^verbatim>\<open>'output'\<close> in quotes.
\<close>

definition response_output :: "response \<Rightarrow> string + string" where
  "response_output response =
     (case response ''output'' of
        None \<Rightarrow> Inl (CHR 0x27 # ''output'' @ [CHR 0x27])
      | Some output \<Rightarrow> Inr output)"

text \<open>
  The \<^verbatim>\<open>try\<close> statement around the call: an exception that \<^verbatim>\<open>except Exception as e\<close> does
  not catch (\<open>Inl\<close>), or else the \<^verbatim>\<open>str(e)\<close> of a caught one (\<open>Inr (Inl e)\<close>) or the output
  of a successful call (\<open>Inr (Inr output)\<close>).
\<close>

fun try_body :: "ending \<Rightarrow> error + (string + string)" where
  "try_body (Returns response) = Inr (response_output response)"
| "try_body (Raises e) = Inr (Inl e)"
| "try_body (RaisesBase name) = Inl (BaseException name)"

text \<open>
  \<^verbatim>\<open>"ThrottlingException" in str(e) or "Too many requests" in str(e)\<close>
\<close>

definition is_throttling :: "string \<Rightarrow> bool" where
  "is_throttling str_e \<longleftrightarrow>
     str_in ''ThrottlingException'' str_e \<or> str_in ''Too many requests'' str_e"

text \<open>
  The two branches that compute \<^verbatim>\<open>delay\<close>; \<open>u\<close> is the sample of \<^verbatim>\<open>random.uniform\<close>. The
  product is an integer, the sum a double, and \<^verbatim>\<open>min\<close> compares exactly.
\<close>

definition delay :: "int \<Rightarrow> rat \<Rightarrow> nat \<Rightarrow> string \<Rightarrow> rat \<Rightarrow> error + rat" where
  "delay base_delay max_delay attempt str_e u =
     (if is_throttling str_e
      then (case double_of_int (base_delay * 4 ^ (attempt - 1)) of
              Inl err \<Rightarrow> Inl err
            | Inr x \<Rightarrow> Inr (min (round_double (x + uniform u 0 2)) max_delay))
      else (case double_of_int (base_delay * 2 ^ (attempt - 1)) of
              Inl err \<Rightarrow> Inl err
            | Inr x \<Rightarrow> Inr (min (round_double (x + uniform u 0 1)) max_delay)))"

text \<open>\<^verbatim>\<open>str(last_exception)\<close>, where \<^verbatim>\<open>last_exception\<close> may still be \<^verbatim>\<open>None\<close>.\<close>

definition str_exception :: "string option \<Rightarrow> string" where
  "str_exception last_exception = (case last_exception of None \<Rightarrow> ''None'' | Some e \<Rightarrow> e)"

definition throttling_message :: string where
  "throttling_message =
     ''Unable to get a response from the agent due to service throttling. '' @
     ''The service is currently experiencing high demand. '' @
     ''Please try again in a few minutes or reduce request frequency.''"

text \<open>The code after the loop.\<close>

definition error_message :: "int \<Rightarrow> string option \<Rightarrow> string" where
  "error_message max_retries last_exception =
     (if is_throttling (str_exception last_exception) then throttling_message
      else ''Unable to get a response from the agent after '' @ str_int max_retries @
           '' attempts. Error: '' @ str_exception last_exception)"

text \<open>
  The local variables of \<^verbatim>\<open>invoke_agent\<close>, together with the number of calls made so far to
  the agent and to the random source, and the log of the calls to the agent and of the
  completed sleeps.
\<close>

record locals =
  attempt :: nat
  last_exception :: "string option"
  handler :: SQLHandler
  calls :: nat
  draws :: nat
  trace :: "event list"

type_synonym run = "event list \<times> (error + string option \<times> string)"

function retry_loop ::
  "rat \<Rightarrow> int \<Rightarrow> int \<Rightarrow> rat \<Rightarrow> (nat \<Rightarrow> invocation) \<Rightarrow> (nat \<Rightarrow> rat) \<Rightarrow> locals \<Rightarrow> run"
  where
  "retry_loop sleep_limit max_retries base_delay max_delay invoke random s =
     (if int (attempt s) \<le> max_retries then
        let inv = invoke (calls s);
            s1 = s\<lparr>handler := foldl on_agent_action (handler s) (actions inv),
                   calls := Suc (calls s), trace := trace s @ [Invoke]\<rparr>
        in case try_body (ending inv) of
             Inl err \<Rightarrow> (trace s1, Inl err)
           | Inr (Inr output) \<Rightarrow> (trace s1, Inr (sql_query (handler s1), output))
           | Inr (Inl e) \<Rightarrow>
               let s2 = s1\<lparr>last_exception := Some e, attempt := Suc (attempt s1)\<rparr> in
               if int (attempt s2) > max_retries
               then (trace s2, Inr (None, error_message max_retries (last_exception s2)))
               else
                 let s3 = s2\<lparr>draws := Suc (draws s2)\<rparr>
                 in (case delay base_delay max_delay (attempt s2) e (random (draws s2)) of
                       Inl err \<Rightarrow> (trace s3, Inl err)
                     | Inr d \<Rightarrow>
                         (case format_2f d of
                            Inl err \<Rightarrow> (trace s3, Inl err)
                          | Inr _ \<Rightarrow>
                              (case time_sleep sleep_limit d of
                                 Inl err \<Rightarrow> (trace s3, Inl err)
                               | Inr _ \<Rightarrow>
                                   retry_loop sleep_limit max_retries base_delay max_delay
                                     invoke random (s3\<lparr>trace := trace s3 @ [Sleep d]\<rparr>))))
      else (trace s, Inr (None, error_message max_retries (last_exception s))))"
  by pat_completeness auto
termination
  by (relation
      "measure (\<lambda>(_, max_retries, _, _, _, _, s). nat (max_retries + 1 - int (attempt s)))")
     auto

declare retry_loop.simps [simp del]

definition invoke_agent ::
  "rat \<Rightarrow> ('q \<Rightarrow> 'p) \<Rightarrow> (nat \<Rightarrow> rat) \<Rightarrow> 'p agent \<Rightarrow> 'q \<Rightarrow> int \<Rightarrow> int \<Rightarrow> rat \<Rightarrow> run" where
  "invoke_agent sleep_limit prompt_template random agent question
       max_retries base_delay max_delay =
     (let handler = SQLHandler_init;
          prompt = prompt_template question
      in retry_loop sleep_limit max_retries base_delay max_delay (agent prompt) random
           \<lparr>attempt = 0, last_exception = None, handler = handler,
            calls = 0, draws = 0, trace = []\<rparr>)"

subsection \<open>Notions used to state the properties\<close>

text \<open>The local variables on entry to the loop.\<close>

definition start :: locals where
  "start = \<lparr>attempt = 0, last_exception = None, handler = SQLHandler_init,
            calls = 0, draws = 0, trace = []\<rparr>"

text \<open>The handler after the first \<open>n\<close> calls of the agent have reported their actions.\<close>

definition captured :: "(nat \<Rightarrow> invocation) \<Rightarrow> nat \<Rightarrow> SQLHandler" where
  "captured invoke n =
     foldl on_agent_action SQLHandler_init (concat (map (\<lambda>i. actions (invoke i)) [0..<n]))"

text \<open>
  The lines from the computation of \<^verbatim>\<open>delay\<close> to \<^verbatim>\<open>time.sleep(delay)\<close> after failed
  attempt \<open>a\<close>: the delay slept, or the exception raised.
\<close>

definition backoff :: "rat \<Rightarrow> int \<Rightarrow> rat \<Rightarrow> nat \<Rightarrow> string \<Rightarrow> rat \<Rightarrow> error + rat" where
  "backoff sleep_limit base_delay max_delay a str_e u =
     (case delay base_delay max_delay a str_e u of
        Inl err \<Rightarrow> Inl err
      | Inr d \<Rightarrow>
          (case format_2f d of
             Inl err \<Rightarrow> Inl err
           | Inr _ \<Rightarrow> (case time_sleep sleep_limit d of Inl err \<Rightarrow> Inl err | Inr _ \<Rightarrow> Inr d)))"

text \<open>
  These lines raise nothing: the delay is computed and formatted, and \<^verbatim>\<open>time.sleep\<close>
  accepts it.
\<close>

definition accepted :: "rat \<Rightarrow> int \<Rightarrow> rat \<Rightarrow> nat \<Rightarrow> string \<Rightarrow> rat \<Rightarrow> bool" where
  "accepted sleep_limit base_delay max_delay a str_e u =
     (case backoff sleep_limit base_delay max_delay a str_e u of
        Inl err \<Rightarrow> False
      | Inr d \<Rightarrow> True)"

text \<open>
  Call \<open>n\<close> of the agent (counted from 0) is made: the loop condition admits it, every
  call before it raised an exception that was caught, and the delay after each of these
  was accepted.
\<close>

definition called ::
  "rat \<Rightarrow> int \<Rightarrow> int \<Rightarrow> rat \<Rightarrow> (nat \<Rightarrow> invocation) \<Rightarrow> (nat \<Rightarrow> rat) \<Rightarrow> nat \<Rightarrow> bool"
  where
  "called sleep_limit max_retries base_delay max_delay invoke random n \<longleftrightarrow>
     int n \<le> max_retries \<and>
     list_all
       (\<lambda>i. case try_body (ending (invoke i)) of
               Inl err \<Rightarrow> False
             | Inr (Inl e) \<Rightarrow> accepted sleep_limit base_delay max_delay (Suc i) e (random i)
             | Inr (Inr out) \<Rightarrow> False)
       [0..<n]"

text \<open>
  A sample of \<^verbatim>\<open>random.random()\<close>: a multiple of \<open>2\<^sup>-\<^sup>5\<^sup>3\<close> in \<open>[0, 1)\<close>.
\<close>

definition is_sample :: "rat \<Rightarrow> bool" where
  "is_sample u \<longleftrightarrow> 0 \<le> u \<and> u < 1 \<and> of_int \<lfloor>u * 2 ^ 53\<rfloor> = u * 2 ^ 53"

text \<open>The log after \<open>n\<close> failed attempts, each followed by its sleep.\<close>

definition backoff_trace :: "(nat \<Rightarrow> rat) \<Rightarrow> nat \<Rightarrow> event list" where
  "backoff_trace d n = concat (map (\<lambda>i. [Invoke, Sleep (d i)]) [0..<n])"

text \<open>The local variables at the head of the loop after \<open>n\<close> failed attempts.\<close>

definition at_attempt ::
  "(nat \<Rightarrow> invocation) \<Rightarrow> (nat \<Rightarrow> string) \<Rightarrow> (nat \<Rightarrow> rat) \<Rightarrow> nat \<Rightarrow> locals" where
  "at_attempt invoke e d n =
     \<lparr>attempt = n, last_exception = (if n = 0 then None else Some (e (n - 1))),
      handler = captured invoke n, calls = n, draws = n, trace = backoff_trace d n\<rparr>"

text \<open>The description of the fault of call \<open>i\<close>, when that call faults.\<close>

definition fault_str :: "(nat \<Rightarrow> invocation) \<Rightarrow> nat \<Rightarrow> string" where
  "fault_str invoke i =
     (case try_body (ending (invoke i)) of Inr (Inl e) \<Rightarrow> e | Inr (Inr output) \<Rightarrow> [] | Inl err \<Rightarrow> [])"

text \<open>The delay slept after the fault of call \<open>i\<close>, when that call faults and is slept on.\<close>

definition slept ::
  "rat \<Rightarrow> int \<Rightarrow> rat \<Rightarrow> (nat \<Rightarrow> invocation) \<Rightarrow> (nat \<Rightarrow> rat) \<Rightarrow> nat \<Rightarrow> rat" where
  "slept sleep_limit base_delay max_delay invoke random i =
     (case backoff sleep_limit base_delay max_delay (Suc i) (fault_str invoke i) (random i) of
        Inl err \<Rightarrow> 0
      | Inr d \<Rightarrow> d)"

text \<open>The delays slept, in order, and the number of calls of the agent, read off a log.\<close>

fun sleeps :: "event list \<Rightarrow> rat list" where
  "sleeps [] = []"
| "sleeps (Invoke # tr) = sleeps tr"
| "sleeps (Sleep d # tr) = d # sleeps tr"

definition attempts :: "event list \<Rightarrow> nat" where
  "attempts tr = length (filter (\<lambda>ev. ev = Invoke) tr)"

subsection \<open>Inputs for the examples\<close>

text \<open>
  A random source that always gives the same sample; an agent every call of which raises
  the same exception; one whose first call runs a query and is then throttled and whose
  later calls answer without running a query; one whose first call raises a given
  exception and whose later calls answer; and one that is interrupted from the keyboard.
  A clock that counts nanoseconds in 64 bits accepts a sleep of 9223372036 seconds and
  none of 9223372037 seconds or more; the examples stay away from the durations between.
\<close>

definition constant_random :: "rat \<Rightarrow> nat \<Rightarrow> rat" where
  "constant_random u n = u"

definition always_raises :: "string \<Rightarrow> string agent" where
  "always_raises str_e = (\<lambda>prompt n. \<lparr>actions = [], ending = Raises str_e\<rparr>)"

definition flaky_agent :: "string agent" where
  "flaky_agent = (\<lambda>prompt n.
     if n = 0
     then \<lparr>actions = [\<lparr>tool = ''sql_db_query'', tool_input = ''SELECT 1''\<rparr>],
           ending = Raises ''ThrottlingException: rate exceeded''\<rparr>
     else \<lparr>actions = [\<lparr>tool = ''sql_db_schema'', tool_input = ''retail_transactions''\<rparr>],
           ending = Returns [''output'' \<mapsto> ''42'']\<rparr>)"

definition fails_once :: "string \<Rightarrow> string agent" where
  "fails_once str_e = (\<lambda>prompt n.
     if n = 0 then \<lparr>actions = [], ending = Raises str_e\<rparr>
     else \<lparr>actions = [], ending = Returns [''output'' \<mapsto> ''42'']\<rparr>)"


definition sleep_limit_64 :: rat where
  "sleep_limit_64 = 9223372036"

section \<open>The shape of every run\<close>

subsection \<open>Substrings\<close>

lemma startswith_iff: "startswith hay needle \<longleftrightarrow> (\<exists>ss. hay = needle @ ss)"
  by (induction hay needle rule: startswith.induct) auto

lemma str_in_iff: "str_in needle hay \<longleftrightarrow> (\<exists>ps ss. hay = ps @ needle @ ss)"
proof (induction hay)
  case Nil
  show ?case by auto
next
  case (Cons h hs)
  have "(\<exists>ps ss. h # hs = ps @ needle @ ss) \<longleftrightarrow>
        (\<exists>ss. h # hs = needle @ ss) \<or> (\<exists>ps ss. hs = ps @ needle @ ss)"
    by (auto simp: Cons_eq_append_conv)
  with Cons show ?case by (simp add: startswith_iff)
qed

lemma is_throttling_iff:
  "is_throttling str_e \<longleftrightarrow>
     (\<exists>ps ss. str_e = ps @ ''ThrottlingException'' @ ss) \<or>
     (\<exists>ps ss. str_e = ps @ ''Too many requests'' @ ss)"
  unfolding is_throttling_def str_in_iff ..

lemma not_throttling_None: "\<not> is_throttling ''None''"
  by (simp add: is_throttling_def)

lemma str_int_m1: "str_int (- 1) = ''-1''"
  by (simp add: str_int_def str_nat.simps digit_char_def)

subsection \<open>Rounding\<close>

lemma floor_log2_bounds:
  assumes "0 < x"
  shows "2 powi (floor_log2 x) \<le> x" and "x < 2 powi (floor_log2 x + 1)"
proof -
  obtain p q where pq: "quotient_of x = (p, q)" by (cases "quotient_of x")
  then have q: "0 < q" and x: "x = of_int p / of_int q"
    by (simp_all add: quotient_of_denom_pos quotient_of_div)
  with assms have p: "0 < p" by (simp add: zero_less_divide_iff)
  define d where "d = bitlen p - bitlen q"
  have bp: "1 \<le> bitlen p" and bq: "1 \<le> bitlen q"
    using p q bitlen_eq_zero_iff [of p] bitlen_eq_zero_iff [of q] bitlen_nonneg [of p]
      bitlen_nonneg [of q] by linarith+
  have lp: "(2::rat) powi (bitlen p - 1) \<le> of_int p" and up: "of_int p < (2::rat) powi bitlen p"
    using bitlen_bounds [OF p] bp by (simp_all add: power_int_def)
  have lq: "(2::rat) powi (bitlen q - 1) \<le> of_int q" and uq: "of_int q < (2::rat) powi bitlen q"
    using bitlen_bounds [OF q] bq by (simp_all add: power_int_def)
  have qpos: "(0::rat) < of_int q" using q by simp
  have low: "(2::rat) powi (d - 1) \<le> x"
  proof -
    have "(2::rat) powi (d - 1) * of_int q \<le> 2 powi (d - 1) * 2 powi bitlen q"
      using uq by (intro mult_left_mono) simp_all
    also have "\<dots> = 2 powi (bitlen p - 1)"
      by (simp add: d_def flip: power_int_add)
    also have "\<dots> \<le> of_int p" by (rule lp)
    finally show ?thesis using qpos by (simp add: x pos_le_divide_eq)
  qed
  have high: "x < (2::rat) powi (d + 1)"
  proof -
    have "of_int p < (2::rat) powi bitlen p" by (rule up)
    also have "\<dots> = 2 powi (d + 1) * 2 powi (bitlen q - 1)"
      by (simp add: d_def flip: power_int_add)
    also have "\<dots> \<le> 2 powi (d + 1) * of_int q"
      using lq by (intro mult_left_mono) simp_all
    finally show ?thesis using qpos by (simp add: x pos_divide_less_eq)
  qed
  have fl: "floor_log2 x = (if 2 powi d \<le> x then d else d - 1)"
    by (simp add: floor_log2_def pq d_def)
  show "2 powi (floor_log2 x) \<le> x" using low by (simp add: fl)
  show "x < 2 powi (floor_log2 x + 1)" using high by (auto simp: fl not_le)
qed

lemma round_half_even_of_int [simp]: "round_half_even (of_int m) = m"
  by (simp add: round_half_even_def)

lemma round_half_even_nonneg: "0 \<le> x \<Longrightarrow> 0 \<le> round_half_even x"
  by (auto simp: round_half_even_def Let_def)

lemma round_double_nonneg:
  assumes "0 \<le> x"
  shows "0 \<le> round_double x"
  using assms
  by (auto simp: round_double_def Let_def intro!: mult_nonneg_nonneg round_half_even_nonneg
      divide_nonneg_pos)

text \<open>A number with at most 53 significant bits above \<open>2\<^sup>-\<^sup>1\<^sup>0\<^sup>7\<^sup>4\<close> is a double.\<close>

lemma round_double_exact:
  assumes "x = of_int m * 2 powi j" and "\<bar>m\<bar> < 2 ^ 53" and "- 1074 \<le> j"
  shows "round_double x = x"
proof (cases "x = 0")
  case True
  then show ?thesis by (simp add: round_double_def)
next
  case False
  define e where "e = floor_log2 \<bar>x\<bar>"
  define ue where "ue = max (e - 52) (- 1074)"
  from False have "0 < \<bar>x\<bar>" by simp
  from floor_log2_bounds(1) [OF this] have "(2::rat) powi e \<le> \<bar>x\<bar>" by (simp add: e_def)
  also have "\<bar>x\<bar> = of_int \<bar>m\<bar> * 2 powi j"
    by (simp add: assms(1) abs_mult)
  also have "\<dots> < 2 ^ 53 * 2 powi j"
  proof (rule mult_strict_right_mono)
    have "(of_int \<bar>m\<bar> :: rat) < of_int (2 ^ 53)" using assms(2) by (simp only: of_int_less_iff)
    then show "(of_int \<bar>m\<bar> :: rat) < 2 ^ 53" by simp
  qed simp
  also have "\<dots> = 2 powi (53 + j)"
    by (simp add: power_int_add)
  finally have lt: "(2::rat) powi e < 2 powi (53 + j)" .
  have "e < 53 + j"
  proof (rule ccontr)
    assume "\<not> e < 53 + j"
    then have "(2::rat) powi (53 + j) \<le> 2 powi e"
      by (intro power_int_increasing) simp_all
    with lt show False by simp
  qed
  with assms(3) have uj: "ue \<le> j" by (simp add: ue_def)
  have "x / 2 powi ue = of_int m * 2 powi (j - ue)"
    by (simp add: assms(1) power_int_diff)
  also have "\<dots> = of_int (m * 2 ^ nat (j - ue))"
    using uj by (simp add: power_int_def)
  finally have "round_half_even (x / 2 powi ue) = m * 2 ^ nat (j - ue)"
    by (simp only: round_half_even_of_int)
  then have "round_double x = of_int (m * 2 ^ nat (j - ue)) * 2 powi ue"
    using False by (simp add: round_double_def Let_def e_def ue_def)
  also have "\<dots> = of_int m * (2 powi (j - ue) * 2 powi ue)"
    using uj by (simp add: power_int_def)
  also have "\<dots> = x"
    by (simp add: assms(1) flip: power_int_add)
  finally show ?thesis .
qed

lemma round_double_of_int:
  assumes "\<bar>m\<bar> < 2 ^ 53"
  shows "round_double (of_int m) = of_int m"
  using round_double_exact [of "of_int m" m 0] assms by simp

lemma double_of_int_small:
  assumes "\<bar>n\<bar> < 2 ^ 53"
  shows "double_of_int n = Inr (of_int n)"
proof -
  have "\<not> 2 ^ 1024 - 2 ^ 970 \<le> \<bar>n\<bar>" using assms by simp
  with round_double_of_int [OF assms] show ?thesis
    by (simp only: double_of_int_def if_False)
qed

text \<open>On a sample, \<^verbatim>\<open>random.uniform(0, 2)\<close> and \<^verbatim>\<open>random.uniform(0, 1)\<close> are exact.\<close>

lemma sample_scaled:
  assumes "is_sample u" and "0 \<le> j" and "j \<le> 53"
  shows "round_double (u * 2 ^ nat j) = u * 2 ^ nat j"
proof -
  define k where "k = \<lfloor>u * 2 ^ 53\<rfloor>"
  from assms(1) have k: "of_int k = u * 2 ^ 53" and u: "0 \<le> u" "u < 1"
    by (simp_all add: is_sample_def k_def)
  have "u * 2 ^ 53 < 2 ^ 53" using u by simp
  then have "(of_int k :: rat) < of_int (2 ^ 53)" by (simp add: k)
  then have k1: "k < 2 ^ 53" by (simp only: of_int_less_iff)
  have "(0::rat) \<le> of_int k" using u by (simp add: k)
  then have k0: "0 \<le> k" by simp
  have ueq: "u = of_int k * 2 powi (- 53)"
    by (simp add: k power_int_minus field_simps)
  have pj: "(2::rat) ^ nat j = 2 powi j"
    using assms(2) by (simp add: power_int_def)
  have "u * 2 ^ nat j = u * 2 powi j" by (simp only: pj)
  also have "\<dots> = of_int k * (2 powi (- 53) * 2 powi j)"
    by (subst ueq) (simp only: mult.assoc)
  also have "(2::rat) powi (- 53) * 2 powi j = 2 powi (j - 53)"
    by (simp add: power_int_diff power_int_minus field_simps)
  finally have x: "u * 2 ^ nat j = of_int k * 2 powi (j - 53)" .
  show ?thesis
    using k0 k1 assms(2,3) by (intro round_double_exact [OF x]) simp_all
qed

lemma uniform_sample:
  assumes "is_sample u"
  shows "uniform u 0 2 = 2 * u" and "uniform u 0 1 = u"
  using sample_scaled [OF assms, of 1] sample_scaled [OF assms, of 0]
  by (simp_all add: uniform_def mult.commute)

lemma uniform_nonneg:
  assumes "0 \<le> u" and "0 \<le> a" and "a \<le> b"
  shows "0 \<le> uniform u a b"
  using assms unfolding uniform_def
  by (intro round_double_nonneg add_nonneg_nonneg mult_nonneg_nonneg) simp_all

lemma is_sample_half: "is_sample (1 / 2)"
  by (simp add: is_sample_def)

subsection \<open>Delays that are accepted\<close>

lemma backoff_InrD:
  assumes "backoff L b m a e u = Inr d"
  shows "delay b m a e u = Inr d" and "time_sleep L d = Inr ()" and "format_2f d = Inr ()"
  using assms by (auto simp: backoff_def split: sum.splits)

lemma accepted_iff: "accepted L b m a e u \<longleftrightarrow> (\<exists>d. backoff L b m a e u = Inr d)"
  by (auto simp: accepted_def split: sum.splits)

lemma delay_le_max:
  assumes "delay b m a e u = Inr d"
  shows "d \<le> m"
  using assms by (auto simp: delay_def split: if_splits sum.splits)

text \<open>
  A sufficient condition: the delays are not negative, the product and the cap are in
  the range of the doubles, and the cap is a duration that \<^verbatim>\<open>time.sleep\<close> accepts.
\<close>

lemma accepted_sufficient:
  assumes "0 \<le> b" and "b * 4 ^ (a - 1) < 2 ^ 1024 - 2 ^ 970"
    and "0 \<le> m" and "m \<le> L" and "0 \<le> u" and "m < 2 ^ 1024 - 2 ^ 970"
  shows "accepted L b m a e u"
proof -
  have le: "b * 2 ^ (a - 1) \<le> b * 4 ^ (a - 1)"
    using assms(1) by (intro mult_left_mono power_mono) simp_all
  have n4: "\<bar>b * 4 ^ (a - 1)\<bar> < 2 ^ 1024 - 2 ^ 970"
    using assms(1,2) by (simp add: abs_mult)
  have n2: "\<bar>b * 2 ^ (a - 1)\<bar> < 2 ^ 1024 - 2 ^ 970"
    using assms(1,2) le by (simp add: abs_mult)
  have x4: "0 \<le> round_double (of_int (b * 4 ^ (a - 1)))"
    using assms(1) by (intro round_double_nonneg) simp
  have x2: "0 \<le> round_double (of_int (b * 2 ^ (a - 1)))"
    using assms(1) by (intro round_double_nonneg) simp
  have j: "0 \<le> uniform u 0 2" "0 \<le> uniform u 0 1"
    using assms(5) by (simp_all add: uniform_nonneg)
  have s4: "0 \<le> round_double (round_double (of_int (b * 4 ^ (a - 1))) + uniform u 0 2)"
    using x4 j by (intro round_double_nonneg) simp
  have s2: "0 \<le> round_double (round_double (of_int (b * 2 ^ (a - 1))) + uniform u 0 1)"
    using x2 j by (intro round_double_nonneg) simp
  show ?thesis
  proof (cases "is_throttling e")
    case True
    with n4 s4 assms(3,4,6) show ?thesis
      by (simp add: accepted_def backoff_def delay_def double_of_int_def time_sleep_def
          format_2f_def not_le [symmetric] min_def)
  next
    case False
    with n2 s2 assms(3,4,6) show ?thesis
      by (simp add: accepted_def backoff_def delay_def double_of_int_def time_sleep_def
          format_2f_def not_le [symmetric] min_def)
  qed
qed

subsection \<open>Some doubles\<close>

lemma round_double_0: "round_double 0 = 0"
  by (simp add: round_double_def)

lemma round_double_numeral:
  assumes "(numeral k :: int) < 2 ^ 53"
  shows "round_double (numeral k) = numeral k" and "round_double (- numeral k) = - numeral k"
  using round_double_of_int [of "numeral k"] round_double_of_int [of "- numeral k"] assms
  by simp_all

lemma round_double_1: "round_double 1 = 1" "round_double (- 1) = - 1"
  using round_double_of_int [of 1] round_double_of_int [of "- 1"] by simp_all

lemma round_double_half: "round_double (1 / 2) = 1 / 2" "round_double (- (1 / 2)) = - (1 / 2)"
  using round_double_exact [of "1 / 2" 1 "- 1"] round_double_exact [of "- (1 / 2)" "- 1" "- 1"]
  by (simp_all add: power_int_minus)

lemma round_double_halves:
  "round_double (3 / 2) = 3 / 2" "round_double (5 / 2) = 5 / 2"
  using round_double_exact [of "3 / 2" 3 "- 1"] round_double_exact [of "5 / 2" 5 "- 1"]
  by (simp_all add: power_int_minus)

lemma round_double_tiny: "round_double (5 + 1 / 2 ^ 52) = 5"
  by code_simp

subsection \<open>Logs\<close>

lemma sleeps_append: "sleeps (xs @ ys) = sleeps xs @ sleeps ys"
  by (induction xs rule: sleeps.induct) simp_all

lemma attempts_Invoke: "attempts [Invoke] = 1"
  by (simp add: attempts_def)

lemma attempts_append: "attempts (xs @ ys) = attempts xs + attempts ys"
  by (simp add: attempts_def)

lemma backoff_trace_Suc: "backoff_trace d (Suc n) = backoff_trace d n @ [Invoke, Sleep (d n)]"
  by (simp add: backoff_trace_def)

lemma sleeps_backoff_trace: "sleeps (backoff_trace d n) = map d [0..<n]"
proof (induction n)
  case 0
  show ?case by (simp add: backoff_trace_def)
next
  case (Suc n)
  then show ?case by (simp add: backoff_trace_Suc sleeps_append)
qed

lemma attempts_backoff_trace: "attempts (backoff_trace d n) = n"
proof (induction n)
  case 0
  show ?case by (simp add: backoff_trace_def attempts_def)
next
  case (Suc n)
  then show ?case by (simp add: backoff_trace_Suc attempts_append) (simp add: attempts_def)
qed

lemma backoff_trace_cong:
  assumes "\<forall>i<n. d i = d' i"
  shows "backoff_trace d n = backoff_trace d' n"
  using assms
proof (induction n)
  case 0
  show ?case by (simp add: backoff_trace_def)
next
  case (Suc n)
  then show ?case by (simp add: backoff_trace_Suc)
qed

lemma captured_Suc:
  "captured invoke (Suc n) = foldl on_agent_action (captured invoke n) (actions (invoke n))"
  by (simp add: captured_def)

lemma sql_query_foldl:
  "sql_query (foldl on_agent_action h as) =
     (case filter (\<lambda>a. tool a = ''sql_db_query'') as of
        [] \<Rightarrow> sql_query h
      | x # xs \<Rightarrow> Some (tool_input (last (x # xs))))"
proof (induction as rule: rev_induct)
  case Nil
  show ?case by simp
next
  case (snoc a as)
  then show ?case
    by (cases "filter (\<lambda>a. tool a = ''sql_db_query'') as")
       (simp_all add: on_agent_action_def)
qed

subsection \<open>Stepping through the loop\<close>

lemma retry_step_fault:
  assumes "try_body (ending (invoke n)) = Inr (Inl (e n))"
    and "backoff L b m (Suc n) (e n) (r n) = Inr (d n)"
    and "int (Suc n) \<le> mr"
  shows "retry_loop L mr b m invoke r (at_attempt invoke e d n) =
         retry_loop L mr b m invoke r (at_attempt invoke e d (Suc n))"
  using assms(1,3) backoff_InrD [OF assms(2)]
  by (subst retry_loop.simps)
     (simp add: at_attempt_def Let_def captured_Suc backoff_trace_Suc)

lemma retry_advance:
  assumes "\<forall>i<n. try_body (ending (invoke i)) = Inr (Inl (e i))"
    and "\<forall>i<n. backoff L b m (Suc i) (e i) (r i) = Inr (d i)"
    and "int n \<le> mr"
  shows "retry_loop L mr b m invoke r (at_attempt invoke e d 0) =
         retry_loop L mr b m invoke r (at_attempt invoke e d n)"
  using assms
proof (induction n)
  case 0
  show ?case by simp
next
  case (Suc n)
  then have "retry_loop L mr b m invoke r (at_attempt invoke e d 0) =
             retry_loop L mr b m invoke r (at_attempt invoke e d n)"
    by simp
  also have "\<dots> = retry_loop L mr b m invoke r (at_attempt invoke e d (Suc n))"
    using Suc.prems by (intro retry_step_fault) simp_all
  finally show ?case .
qed

lemma at_attempt_0: "at_attempt invoke e d 0 = start"
  by (simp add: at_attempt_def start_def captured_def backoff_trace_def)

lemma invoke_agent_start:
  "invoke_agent L pt r agent q mr b m = retry_loop L mr b m (agent (pt q)) r start"
  by (simp add: invoke_agent_def start_def)

lemma stop_success:
  assumes "try_body (ending (invoke k)) = Inr (Inr output)" and "int k \<le> mr"
  shows "retry_loop L mr b m invoke r (at_attempt invoke e d k) =
         (backoff_trace d k @ [Invoke], Inr (sql_query (captured invoke (Suc k)), output))"
  using assms
  by (subst retry_loop.simps) (simp add: at_attempt_def Let_def captured_Suc)

lemma stop_uncaught:
  assumes "try_body (ending (invoke k)) = Inl err" and "int k \<le> mr"
  shows "retry_loop L mr b m invoke r (at_attempt invoke e d k) =
         (backoff_trace d k @ [Invoke], Inl err)"
  using assms
  by (subst retry_loop.simps) (simp add: at_attempt_def Let_def)

lemma stop_exhausted:
  assumes "try_body (ending (invoke k)) = Inr (Inl (e k))" and "mr = int k"
  shows "retry_loop L mr b m invoke r (at_attempt invoke e d k) =
         (backoff_trace d k @ [Invoke], Inr (None, error_message mr (Some (e k))))"
  using assms
  by (subst retry_loop.simps) (simp add: at_attempt_def Let_def)

lemma stop_escape:
  assumes "try_body (ending (invoke k)) = Inr (Inl (e k))" and "int (Suc k) \<le> mr"
    and "backoff L b m (Suc k) (e k) (r k) = Inl err"
  shows "retry_loop L mr b m invoke r (at_attempt invoke e d k) =
         (backoff_trace d k @ [Invoke], Inl err)"
proof (cases "delay b m (Suc k) (e k) (r k)")
  case (Inl err')
  with assms(3) have "err' = err" by (simp add: backoff_def)
  with Inl assms(1,2) show ?thesis
    by (subst retry_loop.simps) (simp add: at_attempt_def Let_def)
next
  case (Inr x)
  with assms(3) have "format_2f x = Inl err \<or> format_2f x = Inr () \<and> time_sleep L x = Inl err"
    by (auto simp: backoff_def split: sum.splits)
  with Inr assms(1,2) show ?thesis
    by (subst retry_loop.simps) (auto simp: at_attempt_def Let_def)
qed

lemma stop_no_attempt:
  assumes "mr < 0"
  shows "retry_loop L mr b m invoke r start = ([], Inr (None, error_message mr None))"
  using assms
  by (subst retry_loop.simps) (simp add: start_def)

lemma run_success:
  assumes "\<forall>i<k. try_body (ending (invoke i)) = Inr (Inl (e i))"
    and "\<forall>i<k. backoff L b m (Suc i) (e i) (r i) = Inr (d i)"
    and "try_body (ending (invoke k)) = Inr (Inr output)" and "int k \<le> mr"
  shows "retry_loop L mr b m invoke r start =
         (backoff_trace d k @ [Invoke], Inr (sql_query (captured invoke (Suc k)), output))"
  using assms retry_advance [of k invoke e L b m r d mr]
  by (simp add: at_attempt_0 stop_success)

lemma run_uncaught:
  assumes "\<forall>i<k. try_body (ending (invoke i)) = Inr (Inl (e i))"
    and "\<forall>i<k. backoff L b m (Suc i) (e i) (r i) = Inr (d i)"
    and "try_body (ending (invoke k)) = Inl err" and "int k \<le> mr"
  shows "retry_loop L mr b m invoke r start = (backoff_trace d k @ [Invoke], Inl err)"
  using assms retry_advance [of k invoke e L b m r d mr]
  by (simp add: at_attempt_0 stop_uncaught)

lemma run_exhausted:
  assumes "\<forall>i\<le>k. try_body (ending (invoke i)) = Inr (Inl (e i))"
    and "\<forall>i<k. backoff L b m (Suc i) (e i) (r i) = Inr (d i)"
    and "mr = int k"
  shows "retry_loop L mr b m invoke r start =
         (backoff_trace d k @ [Invoke], Inr (None, error_message mr (Some (e k))))"
  using assms retry_advance [of k invoke e L b m r d mr]
  by (simp add: at_attempt_0 stop_exhausted)

lemma run_escape:
  assumes "\<forall>i\<le>k. try_body (ending (invoke i)) = Inr (Inl (e i))"
    and "\<forall>i<k. backoff L b m (Suc i) (e i) (r i) = Inr (d i)"
    and "backoff L b m (Suc k) (e k) (r k) = Inl err" and "int (Suc k) \<le> mr"
  shows "retry_loop L mr b m invoke r start = (backoff_trace d k @ [Invoke], Inl err)"
  using assms retry_advance [of k invoke e L b m r d mr]
  by (simp add: at_attempt_0 stop_escape)

lemma fault_str_eq:
  assumes "\<exists>e. try_body (ending (invoke i)) = Inr (Inl e)"
  shows "try_body (ending (invoke i)) = Inr (Inl (fault_str invoke i))"
  using assms by (auto simp: fault_str_def)

lemma slept_eq:
  assumes "\<exists>d. backoff L b m (Suc i) (fault_str invoke i) (r i) = Inr d"
  shows "backoff L b m (Suc i) (fault_str invoke i) (r i) = Inr (slept L b m invoke r i)"
  using assms by (auto simp: slept_def)

text \<open>
  Every run is of one of five kinds: the loop is never entered; some call succeeds; some
  call raises past the \<^verbatim>\<open>except\<close> clause; the retries are exhausted; the computation
  of a delay or \<^verbatim>\<open>time.sleep\<close> raises.
\<close>

lemma run_cases:
  fixes L invoke r mr b m
  defines "e \<equiv> fault_str invoke" and "d \<equiv> slept L b m invoke r"
  obtains
    (no_attempt) "mr < 0"
      "retry_loop L mr b m invoke r start = ([], Inr (None, error_message mr None))"
  | (success) k out where
      "\<forall>i<k. try_body (ending (invoke i)) = Inr (Inl (e i))"
      "\<forall>i<k. backoff L b m (Suc i) (e i) (r i) = Inr (d i)"
      "try_body (ending (invoke k)) = Inr (Inr out)" "int k \<le> mr"
      "retry_loop L mr b m invoke r start =
         (backoff_trace d k @ [Invoke], Inr (sql_query (captured invoke (Suc k)), out))"
  | (uncaught) k err where
      "\<forall>i<k. try_body (ending (invoke i)) = Inr (Inl (e i))"
      "\<forall>i<k. backoff L b m (Suc i) (e i) (r i) = Inr (d i)"
      "try_body (ending (invoke k)) = Inl err" "int k \<le> mr"
      "retry_loop L mr b m invoke r start = (backoff_trace d k @ [Invoke], Inl err)"
  | (exhausted) k where
      "\<forall>i\<le>k. try_body (ending (invoke i)) = Inr (Inl (e i))"
      "\<forall>i<k. backoff L b m (Suc i) (e i) (r i) = Inr (d i)"
      "mr = int k"
      "retry_loop L mr b m invoke r start =
         (backoff_trace d k @ [Invoke], Inr (None, error_message mr (Some (e k))))"
  | (escape) k err where
      "\<forall>i\<le>k. try_body (ending (invoke i)) = Inr (Inl (e i))"
      "\<forall>i<k. backoff L b m (Suc i) (e i) (r i) = Inr (d i)"
      "backoff L b m (Suc k) (e k) (r k) = Inl err" "int (Suc k) \<le> mr"
      "retry_loop L mr b m invoke r start = (backoff_trace d k @ [Invoke], Inl err)"
proof (cases "mr < 0")
  case True
  then show ?thesis by (intro no_attempt stop_no_attempt)
next
  case False
  define A where "A i \<longleftrightarrow> (\<exists>x. try_body (ending (invoke i)) = Inr (Inl x)) \<and>
    (\<exists>y. backoff L b m (Suc i) (e i) (r i) = Inr y) \<and> int (Suc i) \<le> mr" for i
  have "\<not> A (nat mr)" by (simp add: A_def)
  then have ex: "\<exists>i. \<not> A i" by blast
  define k where "k = (LEAST i. \<not> A i)"
  have nk: "\<not> A k" unfolding k_def using ex by (rule LeastI_ex)
  have below: "A i" if "i < k" for i
    using that not_less_Least unfolding k_def by blast
  have fault: "try_body (ending (invoke i)) = Inr (Inl (e i))"
    if "\<exists>x. try_body (ending (invoke i)) = Inr (Inl x)" for i
    unfolding e_def using that by (rule fault_str_eq)
  have f: "\<forall>i<k. try_body (ending (invoke i)) = Inr (Inl (e i))"
    using below fault by (simp add: A_def)
  have s: "\<forall>i<k. backoff L b m (Suc i) (e i) (r i) = Inr (d i)"
    using below slept_eq [of L b m _ invoke r] unfolding e_def d_def A_def by blast
  have kmr: "int k \<le> mr"
  proof (cases k)
    case 0
    with False show ?thesis by simp
  next
    case (Suc j)
    then have "A j" using below by simp
    then show ?thesis using Suc by (simp add: A_def)
  qed
  show ?thesis
  proof (cases "try_body (ending (invoke k))")
    case (Inl err)
    show ?thesis
      by (rule uncaught [OF f s Inl kmr]) (rule run_uncaught [OF f s Inl kmr])
  next
    case (Inr res)
    show ?thesis
    proof (cases res)
      case (Inr out)
      with \<open>try_body (ending (invoke k)) = Inr res\<close>
      have ok: "try_body (ending (invoke k)) = Inr (Inr out)" by simp
      show ?thesis
        by (rule success [OF f s ok kmr]) (rule run_success [OF f s ok kmr])
    next
      case (Inl x)
      with \<open>try_body (ending (invoke k)) = Inr res\<close>
      have fx: "try_body (ending (invoke k)) = Inr (Inl x)" by simp
      then have fk: "try_body (ending (invoke k)) = Inr (Inl (e k))"
        using fault by blast
      with f have f': "\<forall>i\<le>k. try_body (ending (invoke i)) = Inr (Inl (e i))"
        by (auto simp: le_less)
      show ?thesis
      proof (cases "int (Suc k) \<le> mr")
        case True
        with nk fx have "\<not> (\<exists>y. backoff L b m (Suc k) (e k) (r k) = Inr y)"
          by (auto simp: A_def)
        then obtain err where neg: "backoff L b m (Suc k) (e k) (r k) = Inl err"
          by (cases "backoff L b m (Suc k) (e k) (r k)") auto
        show ?thesis
          by (rule escape [OF f' s neg True]) (rule run_escape [OF f' s neg True])
      next
        case False
        with kmr have eq: "mr = int k" by simp
        show ?thesis
          by (rule exhausted [OF f' s eq]) (rule run_exhausted [OF f' s eq])
      qed
    qed
  qed
qed

subsection \<open>What a run returns, sleeps and logs\<close>

lemma accepted_config:
  assumes "int a \<le> mr" and "0 \<le> b" and "b * 4 ^ (nat mr - 1) < 2 ^ 1024 - 2 ^ 970"
    and "0 \<le> m" and "m \<le> L" and "0 \<le> u" and "m < 2 ^ 1024 - 2 ^ 970"
  shows "accepted L b m a e u"
proof -
  have "a - 1 \<le> nat mr - 1" using assms(1) by simp
  then have "(4::int) ^ (a - 1) \<le> 4 ^ (nat mr - 1)"
    by (intro power_increasing) simp_all
  then have "b * 4 ^ (a - 1) \<le> b * 4 ^ (nat mr - 1)"
    using assms(2) by (intro mult_left_mono)
  with assms(3) have "b * 4 ^ (a - 1) < 2 ^ 1024 - 2 ^ 970" by simp
  with assms(2,4,5,6,7) show ?thesis by (intro accepted_sufficient)
qed

lemma backoff_eq:
  assumes "delay b m a e u = Inr d" and "\<bar>d\<bar> \<le> L" and "0 \<le> d"
    and "d < 2 ^ 1024 - 2 ^ 970"
  shows "backoff L b m a e u = Inr d"
  using assms by (simp add: backoff_def time_sleep_def format_2f_def)

lemma called_iff:
  "called L mr b m invoke r n \<longleftrightarrow>
     int n \<le> mr \<and>
     (\<forall>i<n. \<exists>e. try_body (ending (invoke i)) = Inr (Inl e) \<and> accepted L b m (Suc i) e (r i))"
proof -
  have p: "(case t of Inl err \<Rightarrow> False | Inr (Inl e) \<Rightarrow> A e | Inr (Inr out) \<Rightarrow> False) \<longleftrightarrow>
           (\<exists>e. t = Inr (Inl e) \<and> A e)" for t :: "error + (string + string)" and A
    by (cases t) (auto split: sum.splits)
  show ?thesis unfolding called_def list_all_iff p by auto
qed

lemma called_upto:
  assumes "\<forall>i<k. try_body (ending (invoke i)) = Inr (Inl (e i))"
    and "\<forall>i<k. backoff L b m (Suc i) (e i) (r i) = Inr (d i)"
    and "int k \<le> mr" and "n \<le> k"
  shows "called L mr b m invoke r n"
  unfolding called_iff
proof (intro conjI allI impI)
  from assms(3,4) show "int n \<le> mr" by simp
next
  fix i assume "i < n"
  with assms(4) have i: "i < k" by simp
  with assms(1,2) have "try_body (ending (invoke i)) = Inr (Inl (e i))"
    and "accepted L b m (Suc i) (e i) (r i)"
    by (auto simp: accepted_iff)
  then show "\<exists>x. try_body (ending (invoke i)) = Inr (Inl x) \<and> accepted L b m (Suc i) x (r i)"
    by blast
qed

lemma called_stop:
  assumes "called L mr b m invoke r n"
    and "int (Suc k) \<le> mr \<longrightarrow>
         \<not> (\<exists>e. try_body (ending (invoke k)) = Inr (Inl e) \<and> accepted L b m (Suc k) e (r k))"
  shows "n \<le> k"
proof (rule ccontr)
  assume "\<not> n \<le> k"
  then have k: "k < n" by simp
  with assms(1) have "int (Suc k) \<le> mr"
    and "\<exists>e. try_body (ending (invoke k)) = Inr (Inl e) \<and> accepted L b m (Suc k) e (r k)"
    by (auto simp: called_iff)
  with assms(2) show False by blast
qed

lemma called_attempts:
  "called L mr b m invoke r n \<longleftrightarrow> n < attempts (fst (retry_loop L mr b m invoke r start))"
proof (cases rule: run_cases [of mr L b m invoke r])
  case no_attempt
  then show ?thesis by (simp add: called_iff attempts_def)
next
  case (success k out)
  have "called L mr b m invoke r n \<longleftrightarrow> n \<le> k"
  proof
    assume "called L mr b m invoke r n"
    then show "n \<le> k" by (rule called_stop) (simp add: success(3))
  next
    assume "n \<le> k"
    with success(1,2,4) show "called L mr b m invoke r n" by (rule called_upto)
  qed
  then show ?thesis
    by (auto simp: success(5) attempts_append attempts_backoff_trace attempts_Invoke)
next
  case (uncaught k err)
  have "called L mr b m invoke r n \<longleftrightarrow> n \<le> k"
  proof
    assume "called L mr b m invoke r n"
    then show "n \<le> k" by (rule called_stop) (simp add: uncaught(3))
  next
    assume "n \<le> k"
    with uncaught(1,2,4) show "called L mr b m invoke r n" by (rule called_upto)
  qed
  then show ?thesis
    by (auto simp: uncaught(5) attempts_append attempts_backoff_trace attempts_Invoke)
next
  case (exhausted k)
  have p: "\<forall>i<k. try_body (ending (invoke i)) = Inr (Inl (fault_str invoke i))"
    using exhausted(1) by simp
  have kk: "int k \<le> mr" using exhausted(3) by simp
  have "called L mr b m invoke r n \<longleftrightarrow> n \<le> k"
  proof
    assume "called L mr b m invoke r n"
    then show "n \<le> k" by (rule called_stop) (simp add: exhausted(3))
  next
    assume "n \<le> k"
    with p exhausted(2) kk show "called L mr b m invoke r n" by (rule called_upto)
  qed
  then show ?thesis
    by (auto simp: exhausted(4) attempts_append attempts_backoff_trace attempts_Invoke)
next
  case (escape k err)
  have p: "\<forall>i<k. try_body (ending (invoke i)) = Inr (Inl (fault_str invoke i))"
    using escape(1) by simp
  have kk: "int k \<le> mr" using escape(4) by simp
  from escape(1) have fk: "try_body (ending (invoke k)) = Inr (Inl (fault_str invoke k))"
    by simp
  have "called L mr b m invoke r n \<longleftrightarrow> n \<le> k"
  proof
    assume "called L mr b m invoke r n"
    then show "n \<le> k"
      by (rule called_stop) (auto simp: fk accepted_iff escape(3))
  next
    assume "n \<le> k"
    with p escape(2) kk show "called L mr b m invoke r n" by (rule called_upto)
  qed
  then show ?thesis
    by (auto simp: escape(5) attempts_append attempts_backoff_trace attempts_Invoke)
qed

lemma accepted_prefix:
  assumes acc: "\<forall>i e. called L mr b m invoke r i \<and> int (Suc i) \<le> mr \<and>
                  try_body (ending (invoke i)) = Inr (Inl e) \<longrightarrow>
                  accepted L b m (Suc i) e (r i)"
    and f: "\<forall>i<k. try_body (ending (invoke i)) = Inr (Inl (fault_str invoke i))"
    and k: "int k \<le> mr"
  shows "called L mr b m invoke r k \<and>
         (\<forall>i<k. backoff L b m (Suc i) (fault_str invoke i) (r i) =
                 Inr (slept L b m invoke r i))"
  using f k
proof (induction k)
  case 0
  then show ?case by (simp add: called_iff)
next
  case (Suc k)
  from Suc.prems have f': "\<forall>i<k. try_body (ending (invoke i)) = Inr (Inl (fault_str invoke i))"
    and k': "int k \<le> mr" and sk: "int (Suc k) \<le> mr"
    and fk: "try_body (ending (invoke k)) = Inr (Inl (fault_str invoke k))"
    by simp_all
  from Suc.IH [OF f' k'] have c: "called L mr b m invoke r k"
    and b: "\<forall>i<k. backoff L b m (Suc i) (fault_str invoke i) (r i) =
                   Inr (slept L b m invoke r i)"
    by blast+
  from acc c sk fk have a: "accepted L b m (Suc k) (fault_str invoke k) (r k)" by blast
  then have bk: "backoff L b m (Suc k) (fault_str invoke k) (r k) =
                 Inr (slept L b m invoke r k)"
    by (intro slept_eq) (simp add: accepted_iff)
  have "called L mr b m invoke r (Suc k)"
    using c fk a sk by (auto simp: called_iff less_Suc_eq)
  moreover have "\<forall>i<Suc k. backoff L b m (Suc i) (fault_str invoke i) (r i) =
                   Inr (slept L b m invoke r i)"
    using b bk by (simp add: less_Suc_eq)
  ultimately show ?case by blast
qed

lemma returns_only_if:
  assumes "snd (retry_loop L mr b m invoke r start) = Inr result"
  shows "(\<forall>i x. called L mr b m invoke r i \<longrightarrow> ending (invoke i) \<noteq> RaisesBase x) \<and>
         (\<forall>i e. called L mr b m invoke r i \<and> int (Suc i) \<le> mr \<and>
                try_body (ending (invoke i)) = Inr (Inl e) \<longrightarrow>
                accepted L b m (Suc i) e (r i))"
proof -
  have made: "ending (invoke i) \<noteq> RaisesBase x \<and>
              (\<forall>e. int (Suc i) \<le> mr \<and> try_body (ending (invoke i)) = Inr (Inl e) \<longrightarrow>
                   accepted L b m (Suc i) e (r i))"
    if c: "called L mr b m invoke r i"
      and f: "\<forall>j<k. try_body (ending (invoke j)) = Inr (Inl (fault_str invoke j))"
      and d: "\<forall>j<k. backoff L b m (Suc j) (fault_str invoke j) (r j) =
                     Inr (slept L b m invoke r j)"
      and s: "(\<exists>out. try_body (ending (invoke k)) = Inr (Inr out)) \<or>
              (\<exists>e. try_body (ending (invoke k)) = Inr (Inl e)) \<and> mr = int k"
    for i k x
  proof -
    from s have "int (Suc k) \<le> mr \<longrightarrow>
        \<not> (\<exists>e. try_body (ending (invoke k)) = Inr (Inl e) \<and> accepted L b m (Suc k) e (r k))"
      by auto
    with c have "i \<le> k" by (rule called_stop)
    then consider "i < k" | "i = k" by linarith
    then show ?thesis
    proof cases
      case 1
      with f d have "try_body (ending (invoke i)) = Inr (Inl (fault_str invoke i))"
        and "accepted L b m (Suc i) (fault_str invoke i) (r i)"
        by (auto simp: accepted_iff)
      then show ?thesis by auto
    next
      case 2
      with s show ?thesis by auto
    qed
  qed
  show ?thesis
  proof (cases rule: run_cases [of mr L b m invoke r])
    case no_attempt
    then show ?thesis by (simp add: called_iff)
  next
    case (success k out)
    have "(\<exists>out. try_body (ending (invoke k)) = Inr (Inr out)) \<or>
          (\<exists>e. try_body (ending (invoke k)) = Inr (Inl e)) \<and> mr = int k"
      using success(3) by simp
    with success(1,2) show ?thesis by (intro conjI allI impI) (use made in blast)+
  next
    case (uncaught k err)
    with assms show ?thesis by simp
  next
    case (exhausted k)
    have p: "\<forall>j<k. try_body (ending (invoke j)) = Inr (Inl (fault_str invoke j))"
      using exhausted(1) by simp
    have "(\<exists>out. try_body (ending (invoke k)) = Inr (Inr out)) \<or>
          (\<exists>e. try_body (ending (invoke k)) = Inr (Inl e)) \<and> mr = int k"
      using exhausted(1,3) by simp
    with p exhausted(2) show ?thesis by (intro conjI allI impI) (use made in blast)+
  next
    case (escape k err)
    with assms show ?thesis by simp
  qed
qed

lemma reach_success:
  assumes "\<forall>i<k. \<exists>e. try_body (ending (invoke i)) = Inr (Inl e) \<and>
                     accepted L b m (Suc i) e (r i)"
    and "try_body (ending (invoke k)) = Inr (Inr output)" and "int k \<le> mr"
  shows "retry_loop L mr b m invoke r start =
         (backoff_trace (slept L b m invoke r) k @ [Invoke],
          Inr (sql_query (captured invoke (Suc k)), output))"
proof -
  let ?e = "fault_str invoke"
  have f: "\<forall>i<k. try_body (ending (invoke i)) = Inr (Inl (?e i))"
    using assms(1) by (auto intro!: fault_str_eq)
  have b: "\<forall>i<k. backoff L b m (Suc i) (?e i) (r i) = Inr (slept L b m invoke r i)"
  proof (intro allI impI)
    fix i assume i: "i < k"
    with assms(1) obtain e where e: "try_body (ending (invoke i)) = Inr (Inl e)"
      and a: "accepted L b m (Suc i) e (r i)" by blast
    from e f i have "e = ?e i" by simp
    with a show "backoff L b m (Suc i) (?e i) (r i) = Inr (slept L b m invoke r i)"
      by (intro slept_eq) (simp add: accepted_iff)
  qed
  show ?thesis by (rule run_success [OF f b assms(2,3)])
qed

lemma sleeps_run:
  "\<exists>k. sleeps (fst (retry_loop L mr b m invoke r start)) =
         map (slept L b m invoke r) [0..<k] \<and>
       (\<forall>i<k. try_body (ending (invoke i)) = Inr (Inl (fault_str invoke i)) \<and>
              backoff L b m (Suc i) (fault_str invoke i) (r i) = Inr (slept L b m invoke r i)) \<and>
       (k = 0 \<or> int k \<le> mr)"
proof (cases rule: run_cases [of mr L b m invoke r])
  case no_attempt
  then show ?thesis by (intro exI [of _ 0]) simp
next
  case (success k out)
  then show ?thesis
    by (intro exI [of _ k]) (simp add: sleeps_append sleeps_backoff_trace)
next
  case (uncaught k err)
  then show ?thesis
    by (intro exI [of _ k]) (simp add: sleeps_append sleeps_backoff_trace)
next
  case (exhausted k)
  then show ?thesis
    by (intro exI [of _ k]) (simp add: sleeps_append sleeps_backoff_trace)
next
  case (escape k err)
  then show ?thesis
    by (intro exI [of _ k]) (simp add: sleeps_append sleeps_backoff_trace)
qed

lemma slept_delay:
  assumes "1 \<le> a"
    and "a \<le> length (sleeps (fst (retry_loop L mr b m invoke r start)))"
  shows "try_body (ending (invoke (a - 1))) = Inr (Inl (fault_str invoke (a - 1)))"
    and "int a \<le> mr"
    and "delay b m a (fault_str invoke (a - 1)) (r (a - 1)) =
         Inr (sleeps (fst (retry_loop L mr b m invoke r start)) ! (a - 1))"
proof -
  from sleeps_run [of L mr b m invoke r]
  obtain k where
    sl: "sleeps (fst (retry_loop L mr b m invoke r start)) = map (slept L b m invoke r) [0..<k]"
    and f: "\<forall>i<k. try_body (ending (invoke i)) = Inr (Inl (fault_str invoke i)) \<and>
              backoff L b m (Suc i) (fault_str invoke i) (r i) = Inr (slept L b m invoke r i)"
    and k: "k = 0 \<or> int k \<le> mr"
    by blast
  from assms sl have ak: "a - 1 < k" "a \<le> k" "k \<noteq> 0" by auto
  show "try_body (ending (invoke (a - 1))) = Inr (Inl (fault_str invoke (a - 1)))"
    using f ak by simp
  show "int a \<le> mr" using k ak by simp
  have "backoff L b m (Suc (a - 1)) (fault_str invoke (a - 1)) (r (a - 1)) =
        Inr (slept L b m invoke r (a - 1))"
    using f ak by simp
  then have "delay b m a (fault_str invoke (a - 1)) (r (a - 1)) =
             Inr (slept L b m invoke r (a - 1))"
    using assms(1) by (simp add: backoff_InrD)
  then show "delay b m a (fault_str invoke (a - 1)) (r (a - 1)) =
         Inr (sleeps (fst (retry_loop L mr b m invoke r start)) ! (a - 1))"
    using ak by (simp add: sl)
qed

lemma delay_InrD:
  assumes "delay b m a e u = Inr d"
  shows "d = (if is_throttling e
              then min (round_double (round_double (of_int (b * 4 ^ (a - 1))) + uniform u 0 2)) m
              else min (round_double (round_double (of_int (b * 2 ^ (a - 1))) + uniform u 0 1)) m)"
  using assms
  by (auto simp: delay_def double_of_int_def split: if_splits)


lemma run_stop_trace:
  assumes "\<forall>i<k. try_body (ending (invoke i)) = Inr (Inl (e i))"
    and "\<forall>i<k. backoff L b m (Suc i) (e i) (r i) = Inr (d i)"
    and "\<not> (\<exists>x. try_body (ending (invoke k)) = Inr (Inl x))" and "int k \<le> mr"
  shows "fst (retry_loop L mr b m invoke r start) = backoff_trace d k @ [Invoke]"
proof (cases "try_body (ending (invoke k))")
  case (Inl err)
  show ?thesis by (simp add: run_uncaught [OF assms(1,2) Inl assms(4)])
next
  case (Inr res)
  with assms(3) obtain out where "try_body (ending (invoke k)) = Inr (Inr out)"
    by (cases res) auto
  then show ?thesis by (simp add: run_success [OF assms(1,2) _ assms(4)])
qed


lemma attempts_by_pattern:
  assumes pat: "\<forall>i. (\<exists>e. try_body (ending (invoke i)) = Inr (Inl e)) \<longleftrightarrow>
                   (\<exists>e. try_body (ending (invoke' i)) = Inr (Inl e))"
    and acc: "\<forall>i e. called L mr b m invoke r i \<and> int (Suc i) \<le> mr \<and>
                try_body (ending (invoke i)) = Inr (Inl e) \<longrightarrow>
                accepted L b m (Suc i) e (r i)"
    and acc': "\<forall>i e. called L mr b m invoke' r' i \<and> int (Suc i) \<le> mr \<and>
                try_body (ending (invoke' i)) = Inr (Inl e) \<longrightarrow>
                accepted L b m (Suc i) e (r' i)"
  shows "attempts (fst (retry_loop L mr b m invoke r start)) =
         attempts (fst (retry_loop L mr b m invoke' r' start)) \<and>
         length (sleeps (fst (retry_loop L mr b m invoke r start))) =
         length (sleeps (fst (retry_loop L mr b m invoke' r' start)))"
proof -
  let ?e = "fault_str invoke" and ?e' = "fault_str invoke'"
  let ?d' = "slept L b m invoke' r'"
  have tr: "try_body (ending (invoke' i)) = Inr (Inl (?e' i))"
    if "try_body (ending (invoke i)) = Inr (Inl (?e i))" for i
  proof (rule fault_str_eq)
    from that have "\<exists>e. try_body (ending (invoke i)) = Inr (Inl e)" by blast
    with pat show "\<exists>e. try_body (ending (invoke' i)) = Inr (Inl e)" by blast
  qed
  have nf: "\<not> (\<exists>x. try_body (ending (invoke' k)) = Inr (Inl x))"
    if "\<not> (\<exists>x. try_body (ending (invoke k)) = Inr (Inl x))" for k
    using that pat by blast
  have d: "\<forall>i<k. backoff L b m (Suc i) (?e' i) (r' i) = Inr (?d' i)"
    if "\<forall>i<k. try_body (ending (invoke i)) = Inr (Inl (?e i))" and "int k \<le> mr" for k
  proof -
    have "\<forall>i<k. try_body (ending (invoke' i)) = Inr (Inl (?e' i))"
      using that(1) tr by simp
    from accepted_prefix [OF acc' this that(2)] show ?thesis by blast
  qed
  show ?thesis
  proof (cases rule: run_cases [of mr L b m invoke r])
    case no_attempt
    then show ?thesis by (simp add: stop_no_attempt)
  next
    case (success k out)
    have f: "\<forall>i<k. try_body (ending (invoke' i)) = Inr (Inl (?e' i))"
      using success(1) tr by simp
    have "\<not> (\<exists>x. try_body (ending (invoke' k)) = Inr (Inl x))"
      using success(3) by (intro nf) simp
    from run_stop_trace [OF f d [OF success(1,4)] this success(4)] show ?thesis
      by (simp add: success(5) attempts_append attempts_backoff_trace sleeps_append
          sleeps_backoff_trace)
  next
    case (uncaught k err)
    have f: "\<forall>i<k. try_body (ending (invoke' i)) = Inr (Inl (?e' i))"
      using uncaught(1) tr by simp
    have "\<not> (\<exists>x. try_body (ending (invoke' k)) = Inr (Inl x))"
      using uncaught(3) by (intro nf) simp
    from run_stop_trace [OF f d [OF uncaught(1,4)] this uncaught(4)] show ?thesis
      by (simp add: uncaught(5) attempts_append attempts_backoff_trace sleeps_append
          sleeps_backoff_trace)
  next
    case (exhausted k)
    have f: "\<forall>i\<le>k. try_body (ending (invoke' i)) = Inr (Inl (?e' i))"
      using exhausted(1) tr by simp
    have k: "int k \<le> mr" using exhausted(3) by simp
    have p: "\<forall>i<k. try_body (ending (invoke i)) = Inr (Inl (?e i))"
      using exhausted(1) by simp
    show ?thesis
      by (simp add: exhausted(4) run_exhausted [OF f d [OF p k] exhausted(3)] attempts_append
          attempts_backoff_trace sleeps_append sleeps_backoff_trace)
  next
    case (escape k err)
    have p: "\<forall>i<k. try_body (ending (invoke i)) = Inr (Inl (?e i))"
      using escape(1) by simp
    have k: "int k \<le> mr" using escape(4) by simp
    from accepted_prefix [OF acc p k] have "called L mr b m invoke r k" by blast
    moreover from escape(1) have "try_body (ending (invoke k)) = Inr (Inl (?e k))" by simp
    ultimately have "accepted L b m (Suc k) (?e k) (r k)" using acc escape(4) by blast
    with escape(3) show ?thesis by (simp add: accepted_iff)
  qed
qed

lemma attempts_after_faults:
  assumes "int a \<le> mr"
    and "\<forall>i<a. \<exists>e. try_body (ending (invoke i)) = Inr (Inl e) \<and>
                    accepted L b m (Suc i) e (r i)"
  shows "a + 1 \<le> attempts (fst (retry_loop L mr b m invoke r start))"
proof -
  have nonfault: "a \<le> k" if "\<not> (\<exists>x. try_body (ending (invoke k)) = Inr (Inl x))" for k
  proof (rule ccontr)
    assume "\<not> a \<le> k"
    then have "k < a" by simp
    with assms(2) obtain e where "try_body (ending (invoke k)) = Inr (Inl e)" by blast
    with that show False by blast
  qed
  show ?thesis
  proof (cases rule: run_cases [of mr L b m invoke r])
    case no_attempt
    with assms(1) show ?thesis by simp
  next
    case (success k out)
    then have "a \<le> k" by (intro nonfault) simp
    then show ?thesis
      by (simp add: success(5) attempts_append attempts_backoff_trace attempts_Invoke)
  next
    case (uncaught k err)
    then have "a \<le> k" by (intro nonfault) simp
    then show ?thesis
      by (simp add: uncaught(5) attempts_append attempts_backoff_trace attempts_Invoke)
  next
    case (exhausted k)
    with assms(1) show ?thesis
      by (simp add: attempts_append attempts_backoff_trace attempts_Invoke)
  next
    case (escape k err)
    have "a \<le> k"
    proof (rule ccontr)
      assume "\<not> a \<le> k"
      then have "k < a" by simp
      with assms(2) obtain e where e: "try_body (ending (invoke k)) = Inr (Inl e)"
        and a: "accepted L b m (Suc k) e (r k)" by blast
      from e escape(1) have "e = fault_str invoke k" by simp
      with a escape(3) show False by (simp add: accepted_iff)
    qed
    then show ?thesis
      by (simp add: escape(5) attempts_append attempts_backoff_trace attempts_Invoke)
  qed
qed

lemma result_by_agent:
  assumes acc: "\<forall>i e. called L mr b m invoke r i \<and> int (Suc i) \<le> mr \<and>
                  try_body (ending (invoke i)) = Inr (Inl e) \<longrightarrow>
                  accepted L b m (Suc i) e (r i)"
    and acc': "\<forall>i e. called L mr b m invoke r' i \<and> int (Suc i) \<le> mr \<and>
                  try_body (ending (invoke i)) = Inr (Inl e) \<longrightarrow>
                  accepted L b m (Suc i) e (r' i)"
  shows "snd (retry_loop L mr b m invoke r start) = snd (retry_loop L mr b m invoke r' start)"
proof -
  let ?e = "fault_str invoke"
  let ?d' = "slept L b m invoke r'"
  have d: "\<forall>i<k. backoff L b m (Suc i) (?e i) (r' i) = Inr (?d' i)"
    if "\<forall>i<k. try_body (ending (invoke i)) = Inr (Inl (?e i))" and "int k \<le> mr" for k
    using accepted_prefix [OF acc' that] by blast
  show ?thesis
  proof (cases rule: run_cases [of mr L b m invoke r])
    case no_attempt
    then show ?thesis by (simp add: stop_no_attempt)
  next
    case (success k out)
    show ?thesis
      by (simp add: success(5) run_success [OF success(1) d [OF success(1,4)] success(3,4)])
  next
    case (uncaught k err)
    show ?thesis
      by (simp add: uncaught(5) run_uncaught [OF uncaught(1) d [OF uncaught(1,4)] uncaught(3,4)])
  next
    case (exhausted k)
    have k: "int k \<le> mr" using exhausted(3) by simp
    have p: "\<forall>i<k. try_body (ending (invoke i)) = Inr (Inl (?e i))"
      using exhausted(1) by simp
    show ?thesis
      by (simp add: exhausted(4) run_exhausted [OF exhausted(1) d [OF p k] exhausted(3)])
  next
    case (escape k err)
    have p: "\<forall>i<k. try_body (ending (invoke i)) = Inr (Inl (?e i))"
      using escape(1) by simp
    have k: "int k \<le> mr" using escape(4) by simp
    from accepted_prefix [OF acc p k] have "called L mr b m invoke r k" by blast
    moreover from escape(1) have "try_body (ending (invoke k)) = Inr (Inl (?e k))" by simp
    ultimately have "accepted L b m (Suc k) (?e k) (r k)" using acc escape(4) by blast
    with escape(3) show ?thesis by (simp add: accepted_iff)
  qed
qed

subsection \<open>Runs of the example agents\<close>

lemma is_throttling_examples:
  "is_throttling ''ThrottlingException: rate exceeded''"
  "is_throttling ''ThrottlingException''"
  "is_throttling ''Too many requests''"
  "\<not> is_throttling ''connection reset''"
  "\<not> is_throttling ''boom''"
  by (simp_all add: is_throttling_def)


lemma first_retry_escapes:
  assumes "try_body (ending call) = Inr (Inl str_e)"
    and "backoff L b m (Suc 0) str_e u = Inl err" and "1 \<le> mr"
    and "invoke 0 = call" and "r 0 = u"
  shows "retry_loop L mr b m invoke r start = ([Invoke], Inl err)"
  using run_escape [where k = 0 and e = "\<lambda>i. str_e" and d = "\<lambda>i. 0" and invoke = invoke
      and r = r and L = L and mr = mr and b = b and m = m and err = err] assms
  by (simp add: backoff_trace_def)

lemma delay_capped_at_0:
  assumes "0 \<le> b" and "b * 4 ^ (a - 1) < 2 ^ 1024 - 2 ^ 970" and "0 \<le> u"
  shows "backoff sleep_limit_64 b 0 a e u = Inr 0"
proof -
  have "accepted sleep_limit_64 b 0 a e u"
    using assms by (intro accepted_sufficient) (simp_all add: sleep_limit_64_def)
  then obtain d where d: "backoff sleep_limit_64 b 0 a e u = Inr d"
    by (auto simp: accepted_iff)
  from backoff_InrD [OF d] have "d \<le> 0" "0 \<le> d"
    by (auto dest: delay_le_max simp: time_sleep_def split: if_splits)
  with d show ?thesis by simp
qed

lemma flaky_run:
  assumes "is_sample (r 0)"
  shows "invoke_agent sleep_limit_64 (\<lambda>q. q) r flaky_agent ''How many transactions?'' 5 5 60 =
     ([Invoke, Sleep (min (round_double (5 + 2 * r 0)) 60), Invoke],
      Inr (Some ''SELECT 1'', ''42''))"
proof -
  let ?e = "\<lambda>i::nat. ''ThrottlingException: rate exceeded''"
  let ?d = "\<lambda>i::nat. min (round_double (5 + 2 * r 0)) 60"
  let ?invoke = "flaky_agent ''How many transactions?''"
  have f: "\<forall>i<1. try_body (ending (?invoke i)) = Inr (Inl (?e i))"
    by (simp add: flaky_agent_def)
  have dl: "delay 5 60 (Suc 0) ''ThrottlingException: rate exceeded'' (r 0) = Inr (?d 0)"
    by (simp add: delay_def is_throttling_examples double_of_int_small
        uniform_sample [OF assms])
  have "0 \<le> r 0" using assms by (simp add: is_sample_def)
  then have nn: "0 \<le> round_double (5 + 2 * r 0)"
    by (intro round_double_nonneg) simp
  have b: "\<forall>i<1. backoff sleep_limit_64 5 60 (Suc i) (?e i) (r i) = Inr (?d i)"
    using nn by (auto intro!: backoff_eq simp: dl sleep_limit_64_def)
  have s: "try_body (ending (?invoke 1)) = Inr (Inr ''42'')"
    by (simp add: flaky_agent_def response_output_def)
  have c: "sql_query (captured ?invoke (Suc 1)) = Some ''SELECT 1''"
    by (simp add: captured_def flaky_agent_def on_agent_action_def SQLHandler_init_def)
  have "retry_loop sleep_limit_64 5 5 60 ?invoke r start =
        (backoff_trace ?d 1 @ [Invoke], Inr (sql_query (captured ?invoke (Suc 1)), ''42''))"
    by (rule run_success [OF f b s]) simp
  with c show ?thesis by (simp add: invoke_agent_start backoff_trace_def)
qed

lemma flaky_run_half:
  "invoke_agent sleep_limit_64 (\<lambda>q. q) (\<lambda>n. 1 / 2) flaky_agent ''How many transactions?''
     5 5 60 = ([Invoke, Sleep 6, Invoke], Inr (Some ''SELECT 1'', ''42''))"
  using flaky_run [of "\<lambda>n. 1 / 2"] by (simp add: is_sample_half round_double_numeral)

lemma always_raises_run:
  "invoke_agent sleep_limit_64 (\<lambda>q. q) (\<lambda>n. 1 / 2) (always_raises ''connection reset'')
     ''How many transactions?'' 2 1 60 =
     ([Invoke, Sleep (3 / 2), Invoke, Sleep (5 / 2), Invoke],
      Inr (None,
        ''Unable to get a response from the agent after 2 attempts. Error: connection reset''))"
proof -
  let ?e = "\<lambda>i::nat. ''connection reset''"
  let ?d = "\<lambda>i::nat. if i = 0 then 3 / 2 else (5 / 2 :: rat)"
  let ?invoke = "always_raises ''connection reset'' ''How many transactions?''"
  have u: "uniform (1 / 2) 0 1 = 1 / 2"
    by (simp add: uniform_sample is_sample_half)
  have d0: "delay 1 60 (Suc 0) ''connection reset'' (1 / 2) = Inr (3 / 2)"
    by (simp add: delay_def is_throttling_examples double_of_int_small u round_double_halves)
  have d1: "delay 1 60 (Suc 1) ''connection reset'' (1 / 2) = Inr (5 / 2)"
    by (simp add: delay_def is_throttling_examples double_of_int_small u round_double_halves)
  have f: "\<forall>i\<le>2. try_body (ending (?invoke i)) = Inr (Inl (?e i))"
    by (simp add: always_raises_def)
  have b: "\<forall>i<2. backoff sleep_limit_64 1 60 (Suc i) (?e i) ((\<lambda>n. 1 / 2) i) = Inr (?d i)"
  proof (intro allI impI)
    fix i :: nat
    assume "i < 2"
    then have "i = 0 \<or> i = 1" by auto
    then show "backoff sleep_limit_64 1 60 (Suc i) (?e i) ((\<lambda>n. 1 / 2) i) = Inr (?d i)"
      using d0 d1 by (auto intro!: backoff_eq simp: sleep_limit_64_def)
  qed
  have m: "error_message 2 (Some ''connection reset'') =
    ''Unable to get a response from the agent after 2 attempts. Error: connection reset''"
    by (simp add: error_message_def str_exception_def is_throttling_examples str_int_def
        str_nat.simps digit_char_def)
  have "retry_loop sleep_limit_64 2 1 60 ?invoke (\<lambda>n. 1 / 2) start =
        (backoff_trace ?d 2 @ [Invoke], Inr (None, error_message 2 (Some (?e 2))))"
    by (rule run_exhausted [OF f b]) simp
  then show ?thesis
    by (simp add: invoke_agent_start m backoff_trace_def numeral_2_eq_2)
qed

section \<open>Properties of \<^verbatim>\<open>invoke_agent\<close>\<close>

subsection \<open>No fault escapes\<close>




subsection \<open>Every attempt fails\<close>

text \<open>
  Claim C2 speaks of every configuration. With \<^verbatim>\<open>max_delay=-1\<close> the first retry's
  \<^verbatim>\<open>time.sleep\<close> raises after one attempt of the two, and with \<^verbatim>\<open>base_delay=2**1024\<close> the
  computation of the first delay does; nothing is returned. With \<^verbatim>\<open>max_retries=-2\<close> no
  attempt is made, where the claim counts \<open>-1\<close>.
\<close>

theorem all_attempts_fail_counterexample:
  "invoke_agent sleep_limit_64 id (constant_random (1 / 2)) (always_raises ''connection reset'')
     ''How many transactions?'' 1 5 (- 1) =
     ([Invoke], Inl (ValueError ''sleep length must be non-negative'')) \<and>
   invoke_agent sleep_limit_64 id (constant_random (1 / 2)) (always_raises ''connection reset'')
     ''How many transactions?'' 1 (2 ^ 1024) 0 =
     ([Invoke], Inl OverflowError) \<and>
   invoke_agent sleep_limit_64 id (constant_random (1 / 2)) (always_raises ''connection reset'')
     ''How many transactions?'' (- 2) 5 60 =
     ([], Inr (None, ''Unable to get a response from the agent after -2 attempts. Error: None''))"
proof (intro conjI)
  let ?q = "''How many transactions?''"
  let ?invoke = "always_raises ''connection reset'' (id ?q)"
  have f: "try_body (ending (?invoke 0)) = Inr (Inl ''connection reset'')"
    by (simp add: always_raises_def)
  have u: "uniform (1 / 2) 0 1 = 1 / 2"
    by (simp add: uniform_sample is_sample_half)
  have "round_double (11 / 2) = 11 / 2"
    using round_double_exact [of "11 / 2" 11 "- 1"] by (simp add: power_int_minus)
  then have "delay 5 (- 1) (Suc 0) ''connection reset'' (1 / 2) = Inr (- 1)"
    by (simp add: delay_def is_throttling_examples double_of_int_small u)
  then have b1: "backoff sleep_limit_64 5 (- 1) (Suc 0) ''connection reset''
                   (constant_random (1 / 2) 0) =
                 Inl (ValueError ''sleep length must be non-negative'')"
    by (simp add: backoff_def constant_random_def time_sleep_def format_2f_def sleep_limit_64_def)
  show "invoke_agent sleep_limit_64 id (constant_random (1 / 2))
          (always_raises ''connection reset'') ?q 1 5 (- 1) =
        ([Invoke], Inl (ValueError ''sleep length must be non-negative''))"
    unfolding invoke_agent_start by (rule first_retry_escapes [OF f b1]) simp_all
  have b2: "backoff sleep_limit_64 (2 ^ 1024) 0 (Suc 0) ''connection reset''
              (constant_random (1 / 2) 0) = Inl OverflowError"
    by (simp add: backoff_def delay_def is_throttling_examples double_of_int_def)
  show "invoke_agent sleep_limit_64 id (constant_random (1 / 2))
          (always_raises ''connection reset'') ?q 1 (2 ^ 1024) 0 = ([Invoke], Inl OverflowError)"
    unfolding invoke_agent_start by (rule first_retry_escapes [OF f b2]) simp_all
  have "str_int (- 2) = ''-2''"
    by (simp add: str_int_def str_nat.simps digit_char_def)
  then show "invoke_agent sleep_limit_64 id (constant_random (1 / 2))
          (always_raises ''connection reset'') ?q (- 2) 5 60 =
        ([], Inr (None,
           ''Unable to get a response from the agent after -2 attempts. Error: None''))"
    by (simp add: invoke_agent_start stop_no_attempt error_message_def str_exception_def
        not_throttling_None)
qed

text \<open>
  Claim C2, amended. Let \<^verbatim>\<open>max_retries\<close> be at least 0, let the agent fault on every
  attempt, and let the delay after each of the first \<^verbatim>\<open>max_retries\<close> faults be accepted.
  Then \<^verbatim>\<open>invoke_agent\<close> calls the agent exactly \<^verbatim>\<open>max_retries + 1\<close> times, sleeps exactly
  \<^verbatim>\<open>max_retries\<close> times, none of them after the last attempt, and returns \<^verbatim>\<open>None\<close> with
  the failure message for the last fault.
\<close>

theorem all_attempts_fail:
  assumes "0 \<le> max_retries"
    and "\<forall>i. int i \<le> max_retries \<longrightarrow>
           (\<exists>e. try_body (ending (agent (prompt_template question) i)) = Inr (Inl e) \<and>
                (int (Suc i) \<le> max_retries \<longrightarrow>
                   accepted sleep_limit base_delay max_delay (Suc i) e (random i)))"
  shows "\<exists>tr message.
           invoke_agent sleep_limit prompt_template random agent question
             max_retries base_delay max_delay = (tr, Inr (None, message)) \<and>
           int (attempts tr) = max_retries + 1 \<and>
           int (length (sleeps tr)) = max_retries \<and>
           last tr = Invoke \<and>
           message = error_message max_retries
             (Some (fault_str (agent (prompt_template question)) (nat max_retries)))"
proof -
  let ?invoke = "agent (prompt_template question)"
  let ?e = "fault_str ?invoke"
  let ?d = "slept sleep_limit base_delay max_delay ?invoke random"
  let ?k = "nat max_retries"
  have f: "\<forall>i\<le>?k. try_body (ending (?invoke i)) = Inr (Inl (?e i))"
  proof (intro allI impI)
    fix i assume "i \<le> ?k"
    with assms(1) have "int i \<le> max_retries" by simp
    with assms(2) have "\<exists>e. try_body (ending (?invoke i)) = Inr (Inl e)" by blast
    then show "try_body (ending (?invoke i)) = Inr (Inl (?e i))" by (rule fault_str_eq)
  qed
  have b: "\<forall>i<?k. backoff sleep_limit base_delay max_delay (Suc i) (?e i) (random i) =
                  Inr (?d i)"
  proof (intro allI impI)
    fix i assume i: "i < ?k"
    then have "int i \<le> max_retries" "int (Suc i) \<le> max_retries" by simp_all
    with assms(2) obtain e where e: "try_body (ending (?invoke i)) = Inr (Inl e)"
      and a: "accepted sleep_limit base_delay max_delay (Suc i) e (random i)"
      by blast
    from e f i have "e = ?e i" by simp
    with a show "backoff sleep_limit base_delay max_delay (Suc i) (?e i) (random i) =
                 Inr (?d i)"
      by (intro slept_eq) (simp add: accepted_iff)
  qed
  have k: "max_retries = int ?k" using assms(1) by simp
  have "invoke_agent sleep_limit prompt_template random agent question
          max_retries base_delay max_delay =
        (backoff_trace ?d ?k @ [Invoke], Inr (None, error_message max_retries (Some (?e ?k))))"
    unfolding invoke_agent_start by (rule run_exhausted [OF f b k])
  then show ?thesis
    using k by (simp add: attempts_append attempts_backoff_trace sleeps_append
        sleeps_backoff_trace attempts_Invoke)
qed

theorem all_attempts_fail_witness:
  "\<exists>tr message.
     invoke_agent sleep_limit_64 (\<lambda>q. q) (\<lambda>n. 1 / 2) (always_raises ''connection reset'')
       ''How many transactions?'' 2 1 60 = (tr, Inr (None, message)) \<and>
     int (attempts tr) = 2 + 1 \<and> int (length (sleeps tr)) = 2 \<and> last tr = Invoke \<and>
     message = error_message 2
       (Some (fault_str (always_raises ''connection reset'' ''How many transactions?'') (nat 2)))"
proof -
  let ?q = "''How many transactions?''"
  have h: "\<forall>i. int i \<le> 2 \<longrightarrow>
          (\<exists>e. try_body (ending (always_raises ''connection reset'' ?q i)) = Inr (Inl e) \<and>
               (int (Suc i) \<le> 2 \<longrightarrow> accepted sleep_limit_64 1 60 (Suc i) e (1 / 2)))"
    by (auto simp: always_raises_def sleep_limit_64_def intro!: accepted_config [where mr = 2])
  from all_attempts_fail [where max_retries = 2 and agent = "always_raises ''connection reset''"
      and prompt_template = "\<lambda>q. q" and question = ?q and sleep_limit = sleep_limit_64
      and base_delay = 1 and max_delay = 60 and random = "\<lambda>n. 1 / 2", OF _ h]
  show ?thesis by simp
qed

subsection \<open>Success on attempt \<open>k\<close>\<close>

text \<open>
  With an agent that is throttled once and would then answer, the second attempt of
  claim C3 is never made when \<^verbatim>\<open>max_delay=-1\<close>, where the sleep before it raises, nor
  when \<^verbatim>\<open>base_delay=2**1024\<close>, where the computation of the delay does.
\<close>

theorem success_on_attempt_k_counterexample:
  "invoke_agent sleep_limit_64 id (constant_random (1 / 2)) flaky_agent
     ''How many transactions?'' 1 5 (- 1) =
     ([Invoke], Inl (ValueError ''sleep length must be non-negative'')) \<and>
   invoke_agent sleep_limit_64 id (constant_random (1 / 2)) flaky_agent
     ''How many transactions?'' 1 (2 ^ 1024) 0 =
     ([Invoke], Inl OverflowError)"
proof (intro conjI)
  let ?q = "''How many transactions?''"
  let ?s = "''ThrottlingException: rate exceeded''"
  have f: "try_body (ending (flaky_agent (id ?q) 0)) = Inr (Inl ?s)"
    by (simp add: flaky_agent_def)
  have u: "uniform (1 / 2) 0 2 = 1"
    by (simp add: uniform_sample is_sample_half)
  have "delay 5 (- 1) (Suc 0) ?s (1 / 2) = Inr (- 1)"
    by (simp add: delay_def is_throttling_examples double_of_int_small u round_double_numeral)
  then have b1: "backoff sleep_limit_64 5 (- 1) (Suc 0) ?s (constant_random (1 / 2) 0) =
                 Inl (ValueError ''sleep length must be non-negative'')"
    by (simp add: backoff_def constant_random_def time_sleep_def format_2f_def sleep_limit_64_def)
  show "invoke_agent sleep_limit_64 id (constant_random (1 / 2)) flaky_agent ?q 1 5 (- 1) =
        ([Invoke], Inl (ValueError ''sleep length must be non-negative''))"
    unfolding invoke_agent_start by (rule first_retry_escapes [OF f b1]) simp_all
  have b2: "backoff sleep_limit_64 (2 ^ 1024) 0 (Suc 0) ?s (constant_random (1 / 2) 0) =
            Inl OverflowError"
    by (simp add: backoff_def delay_def is_throttling_examples double_of_int_def)
  show "invoke_agent sleep_limit_64 id (constant_random (1 / 2)) flaky_agent ?q
          1 (2 ^ 1024) 0 = ([Invoke], Inl OverflowError)"
    unfolding invoke_agent_start by (rule first_retry_escapes [OF f b2]) simp_all
qed

text \<open>
  Claim C3, amended. For every \<open>k\<close> with \<open>1 \<le> k \<le> max_retries + 1\<close>: if the agent faults on
  its first \<open>k - 1\<close> calls, the delay after each of these faults is accepted, and the agent
  returns a response with an \<^verbatim>\<open>output\<close> field on call \<open>k\<close>, then \<^verbatim>\<open>invoke_agent\<close> calls
  the agent exactly \<open>k\<close> times, sleeps exactly \<open>k - 1\<close> times, does nothing after the
  successful call, and returns the handler's captured query with that \<^verbatim>\<open>output\<close>. For
  \<open>k = 1\<close> nothing is asked of the delays.
\<close>

theorem success_on_attempt_k:
  assumes "1 \<le> k" and "int k \<le> max_retries + 1"
    and "\<forall>i<k - 1. \<exists>e. try_body (ending (agent (prompt_template question) i)) = Inr (Inl e) \<and>
                       accepted sleep_limit base_delay max_delay (Suc i) e (random i)"
    and "try_body (ending (agent (prompt_template question) (k - 1))) = Inr (Inr output)"
  shows "\<exists>tr.
           invoke_agent sleep_limit prompt_template random agent question
             max_retries base_delay max_delay
             = (tr, Inr (sql_query (captured (agent (prompt_template question)) k), output)) \<and>
           attempts tr = k \<and>
           length (sleeps tr) = k - 1 \<and>
           last tr = Invoke"
proof -
  let ?invoke = "agent (prompt_template question)"
  have k: "int (k - 1) \<le> max_retries" using assms(1,2) by simp
  have "invoke_agent sleep_limit prompt_template random agent question
          max_retries base_delay max_delay =
        (backoff_trace (slept sleep_limit base_delay max_delay ?invoke random) (k - 1) @ [Invoke],
         Inr (sql_query (captured ?invoke (Suc (k - 1))), output))"
    unfolding invoke_agent_start by (rule reach_success [OF assms(3,4) k])
  then show ?thesis
    using assms(1) by (simp add: attempts_append attempts_backoff_trace sleeps_append
        sleeps_backoff_trace attempts_Invoke)
qed

theorem success_on_attempt_k_witness:
  "\<exists>tr.
     invoke_agent sleep_limit_64 (\<lambda>q. q) (\<lambda>n. 1 / 2) flaky_agent
       ''How many transactions?'' 5 5 60 =
       (tr, Inr (sql_query (captured (flaky_agent ''How many transactions?'') 2), ''42'')) \<and>
     attempts tr = 2 \<and> length (sleeps tr) = 2 - 1 \<and> last tr = Invoke"
proof -
  let ?q = "''How many transactions?''"
  have f: "\<forall>i<2 - 1. \<exists>e. try_body (ending (flaky_agent ?q i)) = Inr (Inl e) \<and>
             accepted sleep_limit_64 5 60 (Suc i) e (1 / 2)"
    by (auto simp: flaky_agent_def sleep_limit_64_def intro!: accepted_config [where mr = 5])
  have s: "try_body (ending (flaky_agent ?q (2 - 1))) = Inr (Inr ''42'')"
    by (simp add: flaky_agent_def response_output_def)
  from success_on_attempt_k [where k = 2 and max_retries = 5 and agent = flaky_agent
      and prompt_template = "\<lambda>q. q" and question = ?q and sleep_limit = sleep_limit_64
      and base_delay = 5 and max_delay = 60 and random = "\<lambda>n. 1 / 2", OF _ _ f s]
  show ?thesis by simp
qed

subsection \<open>The delay before a retry\<close>

text \<open>
  The sum in claim C4 is a sum of doubles. With \<^verbatim>\<open>base_delay=5\<close> and the sample
  \<open>2\<^sup>-\<^sup>5\<^sup>3\<close>, the jitter of a throttling fault is \<open>2\<^sup>-\<^sup>5\<^sup>2\<close> and the delay slept is
  \<open>5\<close>, the double nearest to \<open>5 + 2\<^sup>-\<^sup>5\<^sup>2\<close>, and not \<open>min (5 + 2\<^sup>-\<^sup>5\<^sup>2) 60\<close>.
\<close>

theorem backoff_delay_rounds:
  "sleeps (fst (invoke_agent sleep_limit_64 id (constant_random (1 / 2 ^ 53)) flaky_agent
     ''How many transactions?'' 5 5 60)) = [5] \<and>
   is_throttling ''ThrottlingException: rate exceeded'' \<and>
   min (5 * 4 ^ (1 - 1) + 2 * (1 / 2 ^ 53)) 60 \<noteq> (5 :: rat)"
proof -
  have s: "is_sample (1 / 2 ^ 53)" by (simp add: is_sample_def)
  have "invoke_agent sleep_limit_64 id (constant_random (1 / 2 ^ 53)) flaky_agent
     ''How many transactions?'' 5 5 60 =
     ([Invoke, Sleep (min (round_double (5 + 2 * (1 / 2 ^ 53))) 60), Invoke],
      Inr (Some ''SELECT 1'', ''42''))"
    unfolding id_def constant_random_def by (rule flaky_run) (rule s)
  moreover have "round_double (5 + 2 * (1 / 2 ^ 53)) = 5"
    using round_double_tiny by simp
  ultimately show ?thesis by (simp add: is_throttling_examples)
qed

text \<open>
  Claim C4, amended. Let the samples of \<^verbatim>\<open>random.random()\<close> be multiples of \<open>2\<^sup>-\<^sup>5\<^sup>3\<close>
  in \<open>[0, 1)\<close>. Whenever \<^verbatim>\<open>invoke_agent\<close> sleeps for the \<open>a\<close>-th time, attempt \<open>a\<close> has
  faulted and \<open>a\<close> lies in \<open>[1, max_retries]\<close>. The jitter is twice the \<open>a\<close>-th sample, in
  \<open>[0, 2]\<close>, when the fault is classified as throttling, and the \<open>a\<close>-th sample, in
  \<open>[0, 1]\<close>, otherwise. The delay slept before attempt \<open>a + 1\<close> is the smaller of
  \<^verbatim>\<open>max_delay\<close> and the double sum of \<open>base_delay * 4 ^ (a - 1)\<close>, respectively
  \<open>base_delay * 2 ^ (a - 1)\<close>, and the jitter: the integer is rounded to a double and so
  is the sum. The delay never exceeds \<^verbatim>\<open>max_delay\<close>.
\<close>

theorem backoff_delay_formula:
  assumes "\<forall>i. is_sample (random i)"
    and "1 \<le> a"
    and "a \<le> length (sleeps (fst (invoke_agent sleep_limit prompt_template random agent question
                 max_retries base_delay max_delay)))"
  shows "\<exists>e jitter.
           try_body (ending (agent (prompt_template question) (a - 1))) = Inr (Inl e) \<and>
           int a \<le> max_retries \<and>
           jitter = (if is_throttling e then 2 * random (a - 1) else random (a - 1)) \<and>
           sleeps (fst (invoke_agent sleep_limit prompt_template random agent question
                 max_retries base_delay max_delay)) ! (a - 1) =
             (if is_throttling e
              then min (round_double
                     (round_double (of_int (base_delay * 4 ^ (a - 1))) + jitter)) max_delay
              else min (round_double
                     (round_double (of_int (base_delay * 2 ^ (a - 1))) + jitter)) max_delay) \<and>
           0 \<le> jitter \<and> jitter \<le> (if is_throttling e then 2 else 1) \<and>
           sleeps (fst (invoke_agent sleep_limit prompt_template random agent question
                 max_retries base_delay max_delay)) ! (a - 1) \<le> max_delay"
proof -
  let ?invoke = "agent (prompt_template question)"
  let ?e = "fault_str ?invoke (a - 1)"
  let ?u = "random (a - 1)"
  let ?d = "sleeps (fst (invoke_agent sleep_limit prompt_template random agent question
                 max_retries base_delay max_delay)) ! (a - 1)"
  note sd = slept_delay [OF assms(2) assms(3) [unfolded invoke_agent_start]]
  have 1: "try_body (ending (?invoke (a - 1))) = Inr (Inl ?e)" by (rule sd(1))
  have 2: "int a \<le> max_retries" by (rule sd(2))
  have dl: "delay base_delay max_delay a ?e ?u = Inr ?d"
    using sd(3) by (simp add: invoke_agent_start)
  have s: "is_sample ?u" using assms(1) by simp
  then have u: "0 \<le> ?u" "?u \<le> 1" by (simp_all add: is_sample_def)
  have 3: "?d = (if is_throttling ?e
              then min (round_double
                     (round_double (of_int (base_delay * 4 ^ (a - 1))) + 2 * ?u)) max_delay
              else min (round_double
                     (round_double (of_int (base_delay * 2 ^ (a - 1))) + ?u)) max_delay)"
    using delay_InrD [OF dl] by (simp only: uniform_sample [OF s])
  have 4: "?d \<le> max_delay" using dl by (rule delay_le_max)
  show ?thesis
  proof (cases "is_throttling ?e")
    case True
    with 1 2 3 4 u show ?thesis
      by (intro exI [of _ ?e] exI [of _ "2 * ?u"]) simp
  next
    case False
    with 1 2 3 4 u show ?thesis
      by (intro exI [of _ ?e] exI [of _ ?u]) simp
  qed
qed

theorem backoff_delay_formula_witness:
  "\<exists>e jitter.
     try_body (ending (flaky_agent ''How many transactions?'' (1 - 1))) = Inr (Inl e) \<and>
     int 1 \<le> 5 \<and>
     jitter = (if is_throttling e then 2 * (1 / 2) else 1 / 2) \<and>
     sleeps (fst (invoke_agent sleep_limit_64 (\<lambda>q. q) (\<lambda>n. 1 / 2) flaky_agent
       ''How many transactions?'' 5 5 60)) ! (1 - 1) =
       (if is_throttling e
        then min (round_double (round_double (of_int (5 * 4 ^ (1 - 1))) + jitter)) 60
        else min (round_double (round_double (of_int (5 * 2 ^ (1 - 1))) + jitter)) 60) \<and>
     0 \<le> jitter \<and> jitter \<le> (if is_throttling e then 2 else 1) \<and>
     sleeps (fst (invoke_agent sleep_limit_64 (\<lambda>q. q) (\<lambda>n. 1 / 2) flaky_agent
       ''How many transactions?'' 5 5 60)) ! (1 - 1) \<le> 60"
proof -
  have s: "\<forall>i::nat. is_sample (1 / 2)" by (simp add: is_sample_half)
  have a: "(1::nat) \<le> 1" by simp
  have l: "1 \<le> length (sleeps (fst (invoke_agent sleep_limit_64 (\<lambda>q. q) (\<lambda>n. 1 / 2)
             flaky_agent ''How many transactions?'' 5 5 60)))"
    by (simp add: flaky_run_half)
  from backoff_delay_formula [where random = "\<lambda>n. 1 / 2" and a = 1 and agent = flaky_agent
      and prompt_template = "\<lambda>q. q" and question = "''How many transactions?''"
      and sleep_limit = sleep_limit_64 and max_retries = 5 and base_delay = 5
      and max_delay = 60, OF s a l]
  show ?thesis by simp
qed

subsection \<open>Classifying a fault\<close>



subsection \<open>The terminal message\<close>

text \<open>
  Claim C6. Let \<^verbatim>\<open>max_retries\<close> be at least 0, let no attempt succeed, and let the call
  return, which it then does from the code after the loop. The artifact is \<^verbatim>\<open>None\<close>, and
  the message is decided by the description of the last fault alone: the fixed throttling
  text when it contains one of the two markers, and otherwise the generic text, which
  embeds \<^verbatim>\<open>str(max_retries)\<close> and that description.
\<close>

theorem terminal_message:
  assumes "0 \<le> max_retries"
    and "\<forall>i. int i \<le> max_retries \<longrightarrow>
           try_body (ending (agent (prompt_template question) i)) = Inr (Inl (e i))"
    and "snd (invoke_agent sleep_limit prompt_template random agent question
                max_retries base_delay max_delay) = Inr (sqlquery, message)"
  shows "sqlquery = None \<and>
         message =
           (if (\<exists>ps ss. e (nat max_retries) = ps @ ''ThrottlingException'' @ ss) \<or>
               (\<exists>ps ss. e (nat max_retries) = ps @ ''Too many requests'' @ ss)
            then ''Unable to get a response from the agent due to service throttling. '' @
                 ''The service is currently experiencing high demand. '' @
                 ''Please try again in a few minutes or reduce request frequency.''
            else ''Unable to get a response from the agent after '' @ str_int max_retries @
                 '' attempts. Error: '' @ e (nat max_retries))"
proof (cases rule: run_cases [of max_retries sleep_limit base_delay max_delay
                               "agent (prompt_template question)" random])
  case no_attempt
  with assms(1) show ?thesis by simp
next
  case (success k out)
  with assms(2) show ?thesis by auto
next
  case (uncaught k err)
  with assms(2) show ?thesis by auto
next
  case (exhausted k)
  let ?invoke = "agent (prompt_template question)"
  from exhausted(3) have k: "k = nat max_retries" by simp
  from exhausted(1) have "try_body (ending (?invoke k)) = Inr (Inl (fault_str ?invoke k))"
    by simp
  moreover from assms(2) exhausted(3) have "try_body (ending (?invoke k)) = Inr (Inl (e k))"
    by simp
  ultimately have ek: "fault_str ?invoke k = e (nat max_retries)" by (simp add: k)
  from exhausted(4) assms(3) have "Inr (sqlquery, message) =
      (Inr (None, error_message max_retries (Some (fault_str ?invoke k))) ::
         error + string option \<times> string)"
    by (simp add: invoke_agent_start)
  then have q: "sqlquery = None"
    and m: "message = error_message max_retries (Some (e (nat max_retries)))"
    by (simp_all add: ek)
  show ?thesis
    unfolding is_throttling_iff [symmetric] q m
    by (simp add: error_message_def str_exception_def throttling_message_def)
next
  case (escape k err)
  with assms(3) show ?thesis by (simp add: invoke_agent_start)
qed

theorem terminal_message_witness:
  "snd (invoke_agent sleep_limit_64 (\<lambda>q. q) (\<lambda>n. 1 / 2)
          (always_raises ''connection reset'') ''How many transactions?'' 2 1 60) =
     Inr (None,
       ''Unable to get a response from the agent after 2 attempts. Error: connection reset'') \<and>
   (None :: string option) = None \<and>
   ''Unable to get a response from the agent after 2 attempts. Error: connection reset'' =
     (if (\<exists>ps ss. ''connection reset'' = ps @ ''ThrottlingException'' @ ss) \<or>
         (\<exists>ps ss. ''connection reset'' = ps @ ''Too many requests'' @ ss)
      then ''Unable to get a response from the agent due to service throttling. '' @
           ''The service is currently experiencing high demand. '' @
           ''Please try again in a few minutes or reduce request frequency.''
      else ''Unable to get a response from the agent after '' @ str_int 2 @
           '' attempts. Error: '' @ ''connection reset'')"
proof -
  have f: "\<forall>i. int i \<le> 2 \<longrightarrow>
             try_body (ending (always_raises ''connection reset''
               ''How many transactions?'' i)) = Inr (Inl ''connection reset'')"
    by (simp add: always_raises_def)
  have r: "snd (invoke_agent sleep_limit_64 (\<lambda>q. q) (\<lambda>n. 1 / 2)
             (always_raises ''connection reset'') ''How many transactions?'' 2 1 60) =
           Inr (None,
             ''Unable to get a response from the agent after 2 attempts. Error: connection reset'')"
    by (simp add: always_raises_run)
  from terminal_message [where max_retries = 2 and prompt_template = "\<lambda>q. q"
      and agent = "always_raises ''connection reset''" and e = "\<lambda>i. ''connection reset''"
      and random = "\<lambda>n. 1 / 2" and base_delay = 1 and max_delay = 60
      and sleep_limit = sleep_limit_64 and question = "''How many transactions?''", OF _ f r]
    r
  show ?thesis by simp
qed

subsection \<open>Every fault is retried\<close>

text \<open>
  Two pairs of runs against claim C7, each with one agent that always raises a throttling
  fault and one that always raises another fault. With
  \<^verbatim>\<open>max_retries=1, base_delay=-1, max_delay=60\<close> and the sample \<open>1/2\<close>, the throttling fault
  is slept on for \<open>0\<close> seconds and retried, while the other fault gives the delay \<open>-1/2\<close>,
  on which \<^verbatim>\<open>time.sleep\<close> raises. With \<^verbatim>\<open>max_retries=2, base_delay=2**1022, max_delay=0\<close>
  the second throttling fault overflows in \<open>2\<^sup>1\<^sup>0\<^sup>2\<^sup>2 * 4\<close>, after two attempts, while
  the other agent is called three times. In both the classification decides whether a
  retry takes place and how many attempts are made.
\<close>

theorem classification_changes_retry:
  "invoke_agent sleep_limit_64 id (constant_random (1 / 2)) (always_raises ''ThrottlingException'')
     ''How many transactions?'' 1 (- 1) 60 =
     ([Invoke, Sleep 0, Invoke], Inr (None, throttling_message)) \<and>
   invoke_agent sleep_limit_64 id (constant_random (1 / 2)) (always_raises ''connection reset'')
     ''How many transactions?'' 1 (- 1) 60 =
     ([Invoke], Inl (ValueError ''sleep length must be non-negative'')) \<and>
   invoke_agent sleep_limit_64 id (constant_random (1 / 2)) (always_raises ''ThrottlingException'')
     ''How many transactions?'' 2 (2 ^ 1022) 0 =
     ([Invoke, Sleep 0, Invoke], Inl OverflowError) \<and>
   invoke_agent sleep_limit_64 id (constant_random (1 / 2)) (always_raises ''connection reset'')
     ''How many transactions?'' 2 (2 ^ 1022) 0 =
     ([Invoke, Sleep 0, Invoke, Sleep 0, Invoke],
      Inr (None,
        ''Unable to get a response from the agent after 2 attempts. Error: connection reset''))"
proof (intro conjI)
  let ?q = "''How many transactions?''"
  let ?r = "constant_random (1 / 2)"
  let ?t = "\<lambda>i::nat. ''ThrottlingException''"
  let ?c = "\<lambda>i::nat. ''connection reset''"
  let ?z = "\<lambda>i::nat. 0::rat"
  have u2: "uniform (1 / 2) 0 2 = 1" and u1: "uniform (1 / 2) 0 1 = 1 / 2"
    by (simp_all add: uniform_sample is_sample_half)
  have ft: "\<forall>i\<le>n. try_body (ending (always_raises ''ThrottlingException'' (id ?q) i)) =
                  Inr (Inl (?t i))" for n
    by (simp add: always_raises_def)
  have fc: "\<forall>i\<le>n. try_body (ending (always_raises ''connection reset'' (id ?q) i)) =
                  Inr (Inl (?c i))" for n
    by (simp add: always_raises_def)
  have "delay (- 1) 60 (Suc 0) ''ThrottlingException'' (1 / 2) = Inr 0"
    by (simp add: delay_def is_throttling_examples double_of_int_small u2 round_double_0)
  then have b1: "\<forall>i<1. backoff sleep_limit_64 (- 1) 60 (Suc i) (?t i) (?r i) = Inr (?z i)"
    by (simp add: backoff_def constant_random_def time_sleep_def format_2f_def sleep_limit_64_def)
  have "retry_loop sleep_limit_64 1 (- 1) 60 (always_raises ''ThrottlingException'' (id ?q)) ?r
          start = (backoff_trace ?z 1 @ [Invoke], Inr (None, error_message 1 (Some (?t 1))))"
    by (rule run_exhausted [OF ft b1]) simp
  then show "invoke_agent sleep_limit_64 id ?r (always_raises ''ThrottlingException'') ?q
          1 (- 1) 60 = ([Invoke, Sleep 0, Invoke], Inr (None, throttling_message))"
    by (simp add: invoke_agent_start backoff_trace_def error_message_def str_exception_def
        is_throttling_examples)
  have "delay (- 1) 60 (Suc 0) ''connection reset'' (1 / 2) = Inr (- (1 / 2))"
    by (simp add: delay_def is_throttling_examples double_of_int_small u1 round_double_half)
  then have b2: "backoff sleep_limit_64 (- 1) 60 (Suc 0) ''connection reset'' (?r 0) =
                 Inl (ValueError ''sleep length must be non-negative'')"
    by (simp add: backoff_def constant_random_def time_sleep_def format_2f_def sleep_limit_64_def)
  have f0: "try_body (ending (always_raises ''connection reset'' (id ?q) 0)) =
            Inr (Inl ''connection reset'')"
    by (simp add: always_raises_def)
  show "invoke_agent sleep_limit_64 id ?r (always_raises ''connection reset'') ?q 1 (- 1) 60 =
        ([Invoke], Inl (ValueError ''sleep length must be non-negative''))"
    unfolding invoke_agent_start by (rule first_retry_escapes [OF f0 b2]) simp_all
  have b3: "\<forall>i<1. backoff sleep_limit_64 (2 ^ 1022) 0 (Suc i) (?t i) (?r i) = Inr (?z i)"
    by (simp add: delay_capped_at_0 constant_random_def)
  have o3: "backoff sleep_limit_64 (2 ^ 1022) 0 (Suc 1) (?t 1) (?r 1) = Inl OverflowError"
    by (simp add: backoff_def delay_def is_throttling_examples double_of_int_def)
  have "retry_loop sleep_limit_64 2 (2 ^ 1022) 0 (always_raises ''ThrottlingException'' (id ?q))
          ?r start = (backoff_trace ?z 1 @ [Invoke], Inl OverflowError)"
    by (rule run_escape [OF ft b3 o3]) simp
  then show "invoke_agent sleep_limit_64 id ?r (always_raises ''ThrottlingException'') ?q
          2 (2 ^ 1022) 0 = ([Invoke, Sleep 0, Invoke], Inl OverflowError)"
    by (simp add: invoke_agent_start backoff_trace_def)
  have b4: "\<forall>i<2. backoff sleep_limit_64 (2 ^ 1022) 0 (Suc i) (?c i) (?r i) = Inr (?z i)"
  proof (intro allI impI)
    fix i :: nat
    assume "i < 2"
    then have "i = 0 \<or> i = 1" by auto
    then show "backoff sleep_limit_64 (2 ^ 1022) 0 (Suc i) (?c i) (?r i) = Inr (?z i)"
    proof
      assume "i = 0"
      then show ?thesis by (simp add: delay_capped_at_0 constant_random_def)
    next
      assume i: "i = 1"
      have "accepted sleep_limit_64 (2 ^ 1022) 0 (Suc 1) ''connection reset'' (1 / 2)"
        by (simp add: accepted_def backoff_def delay_def is_throttling_examples
            double_of_int_def time_sleep_def format_2f_def sleep_limit_64_def min_def u1
            round_double_nonneg not_le [symmetric])
      then obtain d where d: "backoff sleep_limit_64 (2 ^ 1022) 0 (Suc 1) ''connection reset''
                                (1 / 2) = Inr d"
        by (auto simp: accepted_iff)
      from backoff_InrD [OF d] have "d \<le> 0" "0 \<le> d"
        by (auto dest: delay_le_max simp: time_sleep_def split: if_splits)
      with d i show ?thesis by (simp add: constant_random_def)
    qed
  qed
  have m: "error_message 2 (Some ''connection reset'') =
    ''Unable to get a response from the agent after 2 attempts. Error: connection reset''"
    by (simp add: error_message_def str_exception_def is_throttling_examples str_int_def
        str_nat.simps digit_char_def)
  have "retry_loop sleep_limit_64 2 (2 ^ 1022) 0 (always_raises ''connection reset'' (id ?q))
          ?r start = (backoff_trace ?z 2 @ [Invoke], Inr (None, error_message 2 (Some (?c 2))))"
    by (rule run_exhausted [OF fc b4]) simp
  then show "invoke_agent sleep_limit_64 id ?r (always_raises ''connection reset'') ?q
          2 (2 ^ 1022) 0 =
        ([Invoke, Sleep 0, Invoke, Sleep 0, Invoke],
         Inr (None,
           ''Unable to get a response from the agent after 2 attempts. Error: connection reset''))"
    by (simp add: invoke_agent_start backoff_trace_def m numeral_2_eq_2)
qed

text \<open>
  Claim C7, amended. Let the delay after every fault that is caught on a call that is made
  and retried (attempt \<open>a \<le> max_retries\<close>) be accepted. Then a fault on attempt
  \<open>a \<le> max_retries\<close> is followed by attempt \<open>a + 1\<close>, whatever its description. An agent
  that faults on the same calls with any other descriptions, whose delays are accepted as
  well, is called as many times and slept on as many times: the classification changes
  neither whether a retry occurs nor the number of attempts.
\<close>

theorem every_fault_is_retried:
  assumes "\<forall>i. (\<exists>e. try_body (ending (agent (prompt_template question) i)) = Inr (Inl e)) \<longleftrightarrow>
             (\<exists>e. try_body (ending (agent' (prompt_template question) i)) = Inr (Inl e))"
    and "\<forall>i e. called sleep_limit max_retries base_delay max_delay
                   (agent (prompt_template question)) random i \<and>
             int (Suc i) \<le> max_retries \<and>
             try_body (ending (agent (prompt_template question) i)) = Inr (Inl e) \<longrightarrow>
             accepted sleep_limit base_delay max_delay (Suc i) e (random i)"
    and "\<forall>i e. called sleep_limit max_retries base_delay max_delay
                   (agent' (prompt_template question)) random i \<and>
             int (Suc i) \<le> max_retries \<and>
             try_body (ending (agent' (prompt_template question) i)) = Inr (Inl e) \<longrightarrow>
             accepted sleep_limit base_delay max_delay (Suc i) e (random i)"
  shows "(\<forall>a. 1 \<le> a \<and> int a \<le> max_retries \<and>
              (\<forall>i<a. \<exists>e. try_body (ending (agent (prompt_template question) i)) = Inr (Inl e)) \<longrightarrow>
            a + 1 \<le> attempts (fst (invoke_agent sleep_limit prompt_template random agent
                                 question max_retries base_delay max_delay))) \<and>
         attempts (fst (invoke_agent sleep_limit prompt_template random agent question
                          max_retries base_delay max_delay)) =
         attempts (fst (invoke_agent sleep_limit prompt_template random agent' question
                          max_retries base_delay max_delay)) \<and>
         length (sleeps (fst (invoke_agent sleep_limit prompt_template random agent question
                          max_retries base_delay max_delay))) =
         length (sleeps (fst (invoke_agent sleep_limit prompt_template random agent' question
                          max_retries base_delay max_delay)))"
proof (intro conjI allI impI)
  fix a
  let ?invoke = "agent (prompt_template question)"
  assume a: "1 \<le> a \<and> int a \<le> max_retries \<and>
             (\<forall>i<a. \<exists>e. try_body (ending (?invoke i)) = Inr (Inl e))"
  from a have f: "\<forall>i<a. try_body (ending (?invoke i)) = Inr (Inl (fault_str ?invoke i))"
    by (auto intro!: fault_str_eq)
  from a have "int a \<le> max_retries" by simp
  from accepted_prefix [OF assms(2) f this]
  have "called sleep_limit max_retries base_delay max_delay ?invoke random a" by blast
  then have "\<forall>i<a. \<exists>e. try_body (ending (?invoke i)) = Inr (Inl e) \<and>
          accepted sleep_limit base_delay max_delay (Suc i) e (random i)"
    by (simp add: called_iff)
  with a show "a + 1 \<le> attempts (fst (invoke_agent sleep_limit prompt_template random agent
                                 question max_retries base_delay max_delay))"
    unfolding invoke_agent_start by (intro attempts_after_faults) simp_all
next
  show "attempts (fst (invoke_agent sleep_limit prompt_template random agent question
                          max_retries base_delay max_delay)) =
         attempts (fst (invoke_agent sleep_limit prompt_template random agent' question
                          max_retries base_delay max_delay))"
    unfolding invoke_agent_start using attempts_by_pattern [OF assms] by blast
next
  show "length (sleeps (fst (invoke_agent sleep_limit prompt_template random agent question
                          max_retries base_delay max_delay))) =
         length (sleeps (fst (invoke_agent sleep_limit prompt_template random agent' question
                          max_retries base_delay max_delay)))"
    unfolding invoke_agent_start using attempts_by_pattern [OF assms] by blast
qed

theorem every_fault_is_retried_witness:
  "1 + 1 \<le> attempts (fst (invoke_agent sleep_limit_64 (\<lambda>q. q) (\<lambda>n. 1 / 2) flaky_agent
                            ''How many transactions?'' 5 5 60)) \<and>
   attempts (fst (invoke_agent sleep_limit_64 (\<lambda>q. q) (\<lambda>n. 1 / 2) flaky_agent
                    ''How many transactions?'' 5 5 60)) =
   attempts (fst (invoke_agent sleep_limit_64 (\<lambda>q. q) (\<lambda>n. 1 / 2)
                    (fails_once ''connection reset'') ''How many transactions?'' 5 5 60)) \<and>
   length (sleeps (fst (invoke_agent sleep_limit_64 (\<lambda>q. q) (\<lambda>n. 1 / 2) flaky_agent
                    ''How many transactions?'' 5 5 60))) =
   length (sleeps (fst (invoke_agent sleep_limit_64 (\<lambda>q. q) (\<lambda>n. 1 / 2)
                    (fails_once ''connection reset'') ''How many transactions?'' 5 5 60)))"
proof -
  let ?q = "''How many transactions?''"
  note t = every_fault_is_retried [where sleep_limit = sleep_limit_64 and base_delay = 5
      and max_delay = 60 and random = "\<lambda>n. 1 / 2" and agent = flaky_agent
      and prompt_template = "\<lambda>q. q" and question = ?q
      and agent' = "fails_once ''connection reset''" and max_retries = 5]
  have pat: "\<forall>i. (\<exists>e. try_body (ending (flaky_agent ?q i)) = Inr (Inl e)) \<longleftrightarrow>
                 (\<exists>e. try_body (ending (fails_once ''connection reset'' ?q i)) = Inr (Inl e))"
    by (simp add: flaky_agent_def fails_once_def response_output_def)
  have acc: "\<forall>i e. called sleep_limit_64 5 5 60 (flaky_agent ?q) (\<lambda>n. 1 / 2) i \<and>
               int (Suc i) \<le> 5 \<and> try_body (ending (flaky_agent ?q i)) = Inr (Inl e) \<longrightarrow>
               accepted sleep_limit_64 5 60 (Suc i) e (1 / 2)"
    by (intro allI impI accepted_config [where mr = 5]) (simp_all add: sleep_limit_64_def)
  have acc': "\<forall>i e. called sleep_limit_64 5 5 60 (fails_once ''connection reset'' ?q)
                      (\<lambda>n. 1 / 2) i \<and>
               int (Suc i) \<le> 5 \<and>
               try_body (ending (fails_once ''connection reset'' ?q i)) = Inr (Inl e) \<longrightarrow>
               accepted sleep_limit_64 5 60 (Suc i) e (1 / 2)"
    by (intro allI impI accepted_config [where mr = 5]) (simp_all add: sleep_limit_64_def)
  have a: "(1::nat) \<le> 1 \<and> int 1 \<le> 5 \<and>
           (\<forall>i<1. \<exists>e. try_body (ending (flaky_agent ?q i)) = Inr (Inl e))"
    by (simp add: flaky_agent_def)
  note u = t [OF pat acc acc']
  have c1: "1 + 1 \<le> attempts (fst (invoke_agent sleep_limit_64 (\<lambda>q. q) (\<lambda>n. 1 / 2)
      flaky_agent ?q 5 5 60))"
    using u [THEN conjunct1, rule_format, of 1] a by simp
  from c1 u [THEN conjunct2] show ?thesis by (rule conjI)
qed

subsection \<open>One handler for all attempts\<close>

text \<open>
  Claim C8. Let call \<open>k\<close> of the agent (counted from 0) succeed, the calls before it having
  faulted and been slept on. The call of \<^verbatim>\<open>invoke_agent\<close> returns, and the artifact it
  returns is the \<^verbatim>\<open>sql_query\<close> of the one handler created before the loop, after the actions
  of all calls \<open>0, \<dots>, k\<close> were reported to it in order with no reset in between: the
  input of the last \<^verbatim>\<open>sql_db_query\<close> action over all these calls, or \<^verbatim>\<open>None\<close> if there was
  none. So when the successful call reports no such action, the artifact returned is what
  the failed calls before it left in the handler.
\<close>

theorem handler_shared_across_attempts:
  assumes "\<forall>i<k. \<exists>e. try_body (ending (agent (prompt_template question) i)) = Inr (Inl e) \<and>
                     accepted sleep_limit base_delay max_delay (Suc i) e (random i)"
    and "try_body (ending (agent (prompt_template question) k)) = Inr (Inr output)"
    and "int k \<le> max_retries"
  shows "snd (invoke_agent sleep_limit prompt_template random agent question
                max_retries base_delay max_delay) =
           Inr (sql_query (foldl on_agent_action SQLHandler_init
                  (concat (map (\<lambda>i. actions (agent (prompt_template question) i)) [0..<Suc k]))),
                output) \<and>
         sql_query (foldl on_agent_action SQLHandler_init
           (concat (map (\<lambda>i. actions (agent (prompt_template question) i)) [0..<Suc k]))) =
           (case filter (\<lambda>a. tool a = ''sql_db_query'')
                   (concat (map (\<lambda>i. actions (agent (prompt_template question) i)) [0..<Suc k])) of
              [] \<Rightarrow> None
            | x # xs \<Rightarrow> Some (tool_input (last (x # xs)))) \<and>
         ((\<forall>a \<in> set (actions (agent (prompt_template question) k)). tool a \<noteq> ''sql_db_query'') \<longrightarrow>
            snd (invoke_agent sleep_limit prompt_template random agent question
                   max_retries base_delay max_delay) =
              Inr (sql_query (foldl on_agent_action SQLHandler_init
                     (concat (map (\<lambda>i. actions (agent (prompt_template question) i)) [0..<k]))),
                   output))"
proof -
  let ?invoke = "agent (prompt_template question)"
  let ?A = "concat (map (\<lambda>i. actions (?invoke i)) [0..<Suc k])"
  let ?B = "concat (map (\<lambda>i. actions (?invoke i)) [0..<k])"
  have "snd (invoke_agent sleep_limit prompt_template random agent question
               max_retries base_delay max_delay) =
        Inr (sql_query (captured ?invoke (Suc k)), output)"
    unfolding invoke_agent_start by (simp add: reach_success [OF assms])
  then have c1: "snd (invoke_agent sleep_limit prompt_template random agent question
               max_retries base_delay max_delay) =
        Inr (sql_query (foldl on_agent_action SQLHandler_init ?A), output)"
    by (simp only: captured_def)
  have c2: "sql_query (foldl on_agent_action SQLHandler_init ?A) =
            (case filter (\<lambda>a. tool a = ''sql_db_query'') ?A of
               [] \<Rightarrow> None
             | x # xs \<Rightarrow> Some (tool_input (last (x # xs))))"
    by (subst sql_query_foldl) (simp only: SQLHandler_init_def SQLHandler.simps)
  have c3: "sql_query (foldl on_agent_action SQLHandler_init ?A) =
            sql_query (foldl on_agent_action SQLHandler_init ?B)"
    if "\<forall>a \<in> set (actions (?invoke k)). tool a \<noteq> ''sql_db_query''"
  proof -
    have "filter (\<lambda>a. tool a = ''sql_db_query'') (actions (?invoke k)) = []"
      using that by (simp add: filter_empty_conv)
    then have "sql_query (foldl on_agent_action (captured ?invoke k) (actions (?invoke k))) =
               sql_query (captured ?invoke k)"
      by (simp add: sql_query_foldl)
    then have "sql_query (captured ?invoke (Suc k)) = sql_query (captured ?invoke k)"
      by (simp only: captured_Suc)
    then show ?thesis by (simp only: captured_def)
  qed
  from c1 c2 c3 show ?thesis by (simp only: simp_thms) metis
qed

theorem handler_shared_across_attempts_witness:
  "snd (invoke_agent sleep_limit_64 (\<lambda>q. q) (\<lambda>n. 1 / 2) flaky_agent
          ''How many transactions?'' 5 5 60) = Inr (Some ''SELECT 1'', ''42'') \<and>
   map tool (actions (flaky_agent ''How many transactions?'' 1)) = [''sql_db_schema''] \<and>
   sql_query (foldl on_agent_action SQLHandler_init
     (concat (map (\<lambda>i. actions (flaky_agent ''How many transactions?'' i)) [0..<1]))) =
     Some ''SELECT 1''"
proof -
  let ?q = "''How many transactions?''"
  have f: "\<forall>i<1. \<exists>e. try_body (ending (flaky_agent ?q i)) = Inr (Inl e) \<and>
             accepted sleep_limit_64 5 60 (Suc i) e (1 / 2)"
    by (auto simp: flaky_agent_def sleep_limit_64_def intro!: accepted_config [where mr = 5])
  have s: "try_body (ending (flaky_agent ?q 1)) = Inr (Inr ''42'')"
    by (simp add: flaky_agent_def response_output_def)
  have k: "int 1 \<le> 5" by simp
  have own: "\<forall>a \<in> set (actions (flaky_agent ?q 1)). tool a \<noteq> ''sql_db_query''"
    by (simp add: flaky_agent_def)
  note t = handler_shared_across_attempts [where k = 1 and agent = flaky_agent
      and prompt_template = "\<lambda>q. q" and question = ?q and max_retries = 5
      and sleep_limit = sleep_limit_64 and random = "\<lambda>n. 1 / 2" and base_delay = 5
      and max_delay = 60, OF f s k]
  from t own have r: "snd (invoke_agent sleep_limit_64 (\<lambda>q. q) (\<lambda>n. 1 / 2) flaky_agent
      ?q 5 5 60) = Inr (sql_query (foldl on_agent_action SQLHandler_init
        (concat (map (\<lambda>i. actions (flaky_agent ?q i)) [0..<1]))), ''42'')"
    by blast
  have v: "sql_query (foldl on_agent_action SQLHandler_init
      (concat (map (\<lambda>i. actions (flaky_agent ?q i)) [0..<1]))) = Some ''SELECT 1''"
    by (simp add: flaky_agent_def on_agent_action_def SQLHandler_init_def)
  have w: "map tool (actions (flaky_agent ?q 1)) = [''sql_db_schema'']"
    by (simp add: flaky_agent_def)
  from r v w show ?thesis by simp
qed

subsection \<open>Negative and zero \<^verbatim>\<open>max_retries\<close>\<close>

text \<open>
  Claim C9. When \<^verbatim>\<open>max_retries\<close> is negative the loop body never runs: the agent is not
  called, nothing is slept, and the result is \<^verbatim>\<open>None\<close> with the generic message, which
  embeds \<^verbatim>\<open>max_retries\<close> and the text \<^verbatim>\<open>None\<close> for the absent exception. When
  \<^verbatim>\<open>max_retries\<close> is 0 the agent is called exactly once and nothing is slept.
\<close>

theorem negative_max_retries_never_invokes:
  "(max_retries < 0 \<longrightarrow>
      invoke_agent sleep_limit prompt_template random agent question
          max_retries base_delay max_delay =
        ([], Inr (None, ''Unable to get a response from the agent after '' @
                        str_int max_retries @ '' attempts. Error: None''))) \<and>
   attempts (fst (invoke_agent sleep_limit prompt_template random agent question
                    0 base_delay max_delay)) = 1 \<and>
   sleeps (fst (invoke_agent sleep_limit prompt_template random agent question
                  0 base_delay max_delay)) = []"
proof -
  have single: "attempts (fst (retry_loop L 0 b m invoke r start)) = 1 \<and>
                sleeps (fst (retry_loop L 0 b m invoke r start)) = []" for L b m invoke r
    by (subst (1 2) retry_loop.simps)
       (simp add: start_def Let_def attempts_def split: sum.split)
  show ?thesis
    by (simp add: invoke_agent_start stop_no_attempt single error_message_def
        str_exception_def not_throttling_None)
qed

theorem negative_max_retries_never_invokes_witness:
  "invoke_agent sleep_limit_64 (\<lambda>q. q) (\<lambda>n. 0) (always_raises ''boom'')
     ''How many transactions?'' (- 1) 5 60 =
     ([], Inr (None, ''Unable to get a response from the agent after -1 attempts. Error: None''))"
  using negative_max_retries_never_invokes
    [where max_retries = "- 1" and sleep_limit = sleep_limit_64 and prompt_template = "\<lambda>q. q"
      and random = "\<lambda>n. 0" and agent = "always_raises ''boom''"
      and question = "''How many transactions?''" and base_delay = 5 and max_delay = 60]
  by (simp add: str_int_m1)

subsection \<open>The jitter and the result\<close>

text \<open>
  Against claim C10: with \<^verbatim>\<open>max_retries=1, base_delay=-1, max_delay=60\<close> and an agent that
  is always throttled, the sample \<open>1/2\<close> gives the delay \<open>0\<close> and the call returns the
  throttling message, while the sample \<open>1/4\<close> gives the delay \<open>-1/2\<close> and the
  \<^verbatim>\<open>ValueError\<close> of \<^verbatim>\<open>time.sleep\<close> leaves the call: the jitter decides more than the
  durations of the sleeps.
\<close>

theorem result_depends_on_jitter:
  "snd (invoke_agent sleep_limit_64 id (constant_random (1 / 2))
          (always_raises ''ThrottlingException'') ''How many transactions?'' 1 (- 1) 60) =
     Inr (None, throttling_message) \<and>
   snd (invoke_agent sleep_limit_64 id (constant_random (1 / 4))
          (always_raises ''ThrottlingException'') ''How many transactions?'' 1 (- 1) 60) =
     Inl (ValueError ''sleep length must be non-negative'')"
proof (intro conjI)
  let ?q = "''How many transactions?''"
  let ?t = "\<lambda>i::nat. ''ThrottlingException''"
  let ?z = "\<lambda>i::nat. 0::rat"
  have s4: "is_sample (1 / 4)" by (simp add: is_sample_def)
  have u2: "uniform (1 / 2) 0 2 = 1" and u4: "uniform (1 / 4) 0 2 = 1 / 2"
    using uniform_sample(1) [OF is_sample_half] uniform_sample(1) [OF s4] by simp_all
  have ft: "\<forall>i\<le>n. try_body (ending (always_raises ''ThrottlingException'' (id ?q) i)) =
                  Inr (Inl (?t i))" for n
    by (simp add: always_raises_def)
  have "delay (- 1) 60 (Suc 0) ''ThrottlingException'' (1 / 2) = Inr 0"
    by (simp add: delay_def is_throttling_examples double_of_int_small u2 round_double_0)
  then have b1: "\<forall>i<1. backoff sleep_limit_64 (- 1) 60 (Suc i) (?t i)
                    (constant_random (1 / 2) i) = Inr (?z i)"
    by (simp add: backoff_def constant_random_def time_sleep_def format_2f_def sleep_limit_64_def)
  have "retry_loop sleep_limit_64 1 (- 1) 60 (always_raises ''ThrottlingException'' (id ?q))
          (constant_random (1 / 2)) start =
        (backoff_trace ?z 1 @ [Invoke], Inr (None, error_message 1 (Some (?t 1))))"
    by (rule run_exhausted [OF ft b1]) simp
  then show "snd (invoke_agent sleep_limit_64 id (constant_random (1 / 2))
          (always_raises ''ThrottlingException'') ?q 1 (- 1) 60) =
        Inr (None, throttling_message)"
    by (simp add: invoke_agent_start error_message_def str_exception_def
        is_throttling_examples)
  have "delay (- 1) 60 (Suc 0) ''ThrottlingException'' (1 / 4) = Inr (- (1 / 2))"
    by (simp add: delay_def is_throttling_examples double_of_int_small u4 round_double_half)
  then have b2: "backoff sleep_limit_64 (- 1) 60 (Suc 0) ''ThrottlingException''
                   (constant_random (1 / 4) 0) =
                 Inl (ValueError ''sleep length must be non-negative'')"
    by (simp add: backoff_def constant_random_def time_sleep_def format_2f_def sleep_limit_64_def)
  have f0: "try_body (ending (always_raises ''ThrottlingException'' (id ?q) 0)) =
            Inr (Inl ''ThrottlingException'')"
    by (simp add: always_raises_def)
  have "retry_loop sleep_limit_64 1 (- 1) 60 (always_raises ''ThrottlingException'' (id ?q))
          (constant_random (1 / 4)) start =
        ([Invoke], Inl (ValueError ''sleep length must be non-negative''))"
    by (rule first_retry_escapes [OF f0 b2]) simp_all
  then show "snd (invoke_agent sleep_limit_64 id (constant_random (1 / 4))
          (always_raises ''ThrottlingException'') ?q 1 (- 1) 60) =
        Inl (ValueError ''sleep length must be non-negative'')"
    by (simp add: invoke_agent_start)
qed

text \<open>
  Claim C10, amended. Take two calls with the same agent, question and configuration,
  under any two sequences of samples for which the delay after every fault that is caught
  on a call that is made and retried (attempt \<open>a \<le> max_retries\<close>) is accepted. Both calls
  end alike: they return the same pair, or the same exception of the agent leaves both;
  and they return when the agent raises nothing but instances of \<^verbatim>\<open>Exception\<close> on the calls
  that are made. (In the example the two logs differ in the delay slept.)
\<close>

theorem result_independent_of_jitter:
  assumes "\<forall>i e. called sleep_limit max_retries base_delay max_delay
                   (agent (prompt_template question)) random i \<and>
             int (Suc i) \<le> max_retries \<and>
             try_body (ending (agent (prompt_template question) i)) = Inr (Inl e) \<longrightarrow>
             accepted sleep_limit base_delay max_delay (Suc i) e (random i)"
    and "\<forall>i e. called sleep_limit max_retries base_delay max_delay
                   (agent (prompt_template question)) random' i \<and>
             int (Suc i) \<le> max_retries \<and>
             try_body (ending (agent (prompt_template question) i)) = Inr (Inl e) \<longrightarrow>
             accepted sleep_limit base_delay max_delay (Suc i) e (random' i)"
  shows "snd (invoke_agent sleep_limit prompt_template random agent question
                max_retries base_delay max_delay) =
         snd (invoke_agent sleep_limit prompt_template random' agent question
                max_retries base_delay max_delay) \<and>
         ((\<forall>i b. called sleep_limit max_retries base_delay max_delay
                    (agent (prompt_template question)) random i \<longrightarrow>
              ending (agent (prompt_template question) i) \<noteq> RaisesBase b) \<longrightarrow>
          (\<exists>result. snd (invoke_agent sleep_limit prompt_template random agent question
                           max_retries base_delay max_delay) = Inr result))"
proof (intro conjI impI)
  show "snd (invoke_agent sleep_limit prompt_template random agent question
                max_retries base_delay max_delay) =
         snd (invoke_agent sleep_limit prompt_template random' agent question
                max_retries base_delay max_delay)"
    unfolding invoke_agent_start by (rule result_by_agent [OF assms])
next
  let ?invoke = "agent (prompt_template question)"
  assume h1: "\<forall>i b. called sleep_limit max_retries base_delay max_delay ?invoke random i \<longrightarrow>
                ending (?invoke i) \<noteq> RaisesBase b"
  show "\<exists>result. snd (invoke_agent sleep_limit prompt_template random agent question
                           max_retries base_delay max_delay) = Inr result"
  proof (cases rule: run_cases [of max_retries sleep_limit base_delay max_delay ?invoke random])
    case no_attempt
    then show ?thesis by (simp add: invoke_agent_start)
  next
    case (success k out)
    then show ?thesis by (simp add: invoke_agent_start)
  next
    case (uncaught k err)
    from uncaught(3) obtain b where "ending (?invoke k) = RaisesBase b"
      by (cases "ending (?invoke k)") auto
    moreover have "called sleep_limit max_retries base_delay max_delay ?invoke random k"
      using uncaught(1,2,4) by (rule called_upto) simp
    ultimately show ?thesis using h1 by blast
  next
    case (exhausted k)
    then show ?thesis by (simp add: invoke_agent_start)
  next
    case (escape k err)
    have p: "\<forall>i<k. try_body (ending (?invoke i)) = Inr (Inl (fault_str ?invoke i))"
      using escape(1) by simp
    have k: "int k \<le> max_retries" using escape(4) by simp
    have "called sleep_limit max_retries base_delay max_delay ?invoke random k"
      using p escape(2) k by (rule called_upto) simp
    moreover from escape(1)
    have "try_body (ending (?invoke k)) = Inr (Inl (fault_str ?invoke k))" by simp
    ultimately
    have "accepted sleep_limit base_delay max_delay (Suc k) (fault_str ?invoke k) (random k)"
      using assms(1) escape(4) by blast
    with escape(3) show ?thesis by (simp add: accepted_iff)
  qed
qed

theorem result_independent_of_jitter_witness:
  "snd (invoke_agent sleep_limit_64 (\<lambda>q. q) (\<lambda>n. 1 / 2) flaky_agent
          ''How many transactions?'' 5 5 60) =
   snd (invoke_agent sleep_limit_64 (\<lambda>q. q) (\<lambda>n. 0) flaky_agent
          ''How many transactions?'' 5 5 60) \<and>
   (\<exists>result. snd (invoke_agent sleep_limit_64 (\<lambda>q. q) (\<lambda>n. 1 / 2) flaky_agent
          ''How many transactions?'' 5 5 60) = Inr result) \<and>
   fst (invoke_agent sleep_limit_64 (\<lambda>q. q) (\<lambda>n. 1 / 2) flaky_agent
          ''How many transactions?'' 5 5 60) \<noteq>
   fst (invoke_agent sleep_limit_64 (\<lambda>q. q) (\<lambda>n. 0) flaky_agent
          ''How many transactions?'' 5 5 60)"
proof -
  let ?q = "''How many transactions?''"
  have acc: "\<forall>i e. called sleep_limit_64 5 5 60 (flaky_agent ?q) (\<lambda>n. 1 / 2) i \<and>
               int (Suc i) \<le> 5 \<and> try_body (ending (flaky_agent ?q i)) = Inr (Inl e) \<longrightarrow>
               accepted sleep_limit_64 5 60 (Suc i) e (1 / 2)"
    by (intro allI impI accepted_config [where mr = 5]) (simp_all add: sleep_limit_64_def)
  have acc': "\<forall>i e. called sleep_limit_64 5 5 60 (flaky_agent ?q) (\<lambda>n. 0) i \<and>
               int (Suc i) \<le> 5 \<and> try_body (ending (flaky_agent ?q i)) = Inr (Inl e) \<longrightarrow>
               accepted sleep_limit_64 5 60 (Suc i) e 0"
    by (intro allI impI accepted_config [where mr = 5]) (simp_all add: sleep_limit_64_def)
  have h1: "\<forall>i b. called sleep_limit_64 5 5 60 (flaky_agent ?q) (\<lambda>n. 1 / 2) i \<longrightarrow>
              ending (flaky_agent ?q i) \<noteq> RaisesBase b"
    by (simp add: flaky_agent_def)
  note t = result_independent_of_jitter [where prompt_template = "\<lambda>q. q"
      and random = "\<lambda>n. 1 / 2" and random' = "\<lambda>n. 0" and agent = flaky_agent
      and question = ?q and sleep_limit = sleep_limit_64 and max_retries = 5
      and base_delay = 5 and max_delay = 60, OF acc acc']
  have s0: "is_sample 0" by (simp add: is_sample_def)
  have "fst (invoke_agent sleep_limit_64 (\<lambda>q. q) (\<lambda>n. 1 / 2) flaky_agent ?q 5 5 60) \<noteq>
        fst (invoke_agent sleep_limit_64 (\<lambda>q. q) (\<lambda>n. 0) flaky_agent ?q 5 5 60)"
    using flaky_run [of "\<lambda>n. 0"] s0 by (simp add: flaky_run_half round_double_numeral)
  with t h1 show ?thesis by blast
qed

end
